theory Spec2Isabelle
  imports Complex_Main "HOL-Library.Multiset" "HOL-Library.Word" "HOL-Library.AList"
begin

section \<open>JavaScript numbers\<close>

text \<open>
  A JavaScript number is modelled as a rational or one of the three non-finite values.
  The program computes with counts of people. On integers that stay within \<open>2^53\<close> the
  sums, differences and products of double precision are exact, and the floor of the
  rounded quotient of two such integers is the floor of their quotient (\<open>fl_of_int\<close> and
  \<open>floor_fl_div\<close> below); these operations are modelled as exact. The theorems about
  numbers that the program does not bound itself state the range they are for; a roster
  is an array, and has fewer than \<open>2^32\<close> entries. The one operand that need not be an
  integer is the desired group size: the quotient by it is rounded to the nearest
  double, by \<open>fl\<close> below. The fractional remainder of a quota is kept as the exact
  fraction; the program's differs from it by a rounding error, which can only change
  the order of two remainders that close.
  Negative zero is not modelled: the program only compares, adds and multiplies by it,
  where it behaves as zero, and never divides by it (the only divisor that can be zero
  is a sum started from \<open>+0\<close>).
\<close>

datatype jsnum = Fin rat | PosInf | NegInf | NaN

fun isFinite :: "jsnum \<Rightarrow> bool" where
  "isFinite (Fin _) = True"
| "isFinite _ = False"

text \<open>The comparisons \<open>a > b\<close>, \<open>a < b\<close>, \<open>a <= b\<close> and \<open>a === b\<close>; each is false when an
  operand is \<open>NaN\<close>.\<close>

fun jlt :: "jsnum \<Rightarrow> jsnum \<Rightarrow> bool" where
  "jlt NaN _ = False"
| "jlt _ NaN = False"
| "jlt (Fin a) (Fin b) = (a < b)"
| "jlt NegInf NegInf = False"
| "jlt NegInf _ = True"
| "jlt _ NegInf = False"
| "jlt PosInf _ = False"
| "jlt _ PosInf = True"

definition jgt :: "jsnum \<Rightarrow> jsnum \<Rightarrow> bool" where
  "jgt a b = jlt b a"

fun jeq :: "jsnum \<Rightarrow> jsnum \<Rightarrow> bool" where
  "jeq NaN _ = False"
| "jeq _ NaN = False"
| "jeq a b = (a = b)"

definition jle :: "jsnum \<Rightarrow> jsnum \<Rightarrow> bool" where
  "jle a b = (jlt a b \<or> jeq a b)"

fun jneg :: "jsnum \<Rightarrow> jsnum" where
  "jneg (Fin a) = Fin (- a)"
| "jneg PosInf = NegInf"
| "jneg NegInf = PosInf"
| "jneg NaN = NaN"

fun jadd :: "jsnum \<Rightarrow> jsnum \<Rightarrow> jsnum" where
  "jadd NaN _ = NaN"
| "jadd _ NaN = NaN"
| "jadd (Fin a) (Fin b) = Fin (a + b)"
| "jadd PosInf NegInf = NaN"
| "jadd NegInf PosInf = NaN"
| "jadd PosInf _ = PosInf"
| "jadd _ PosInf = PosInf"
| "jadd NegInf _ = NegInf"
| "jadd _ NegInf = NegInf"

definition jsub :: "jsnum \<Rightarrow> jsnum \<Rightarrow> jsnum" where
  "jsub a b = jadd a (jneg b)"

fun jmul :: "jsnum \<Rightarrow> jsnum \<Rightarrow> jsnum" where
  "jmul NaN _ = NaN"
| "jmul _ NaN = NaN"
| "jmul (Fin a) (Fin b) = Fin (a * b)"
| "jmul (Fin a) PosInf = (if a = 0 then NaN else if 0 < a then PosInf else NegInf)"
| "jmul (Fin a) NegInf = (if a = 0 then NaN else if 0 < a then NegInf else PosInf)"
| "jmul PosInf (Fin b) = (if b = 0 then NaN else if 0 < b then PosInf else NegInf)"
| "jmul NegInf (Fin b) = (if b = 0 then NaN else if 0 < b then NegInf else PosInf)"
| "jmul PosInf PosInf = PosInf"
| "jmul NegInf NegInf = PosInf"
| "jmul _ _ = NegInf"

text \<open>\<open>a / b\<close>. Of the non-finite dividends only those the program can produce matter;
  all of IEEE division is written out nevertheless.\<close>

fun jdiv :: "jsnum \<Rightarrow> jsnum \<Rightarrow> jsnum" where
  "jdiv NaN _ = NaN"
| "jdiv _ NaN = NaN"
| "jdiv (Fin a) (Fin b) =
     (if b = 0 then (if a = 0 then NaN else if 0 < a then PosInf else NegInf)
      else Fin (a / b))"
| "jdiv (Fin a) _ = Fin 0"
| "jdiv PosInf (Fin b) = (if 0 \<le> b then PosInf else NegInf)"
| "jdiv NegInf (Fin b) = (if 0 \<le> b then NegInf else PosInf)"
| "jdiv _ _ = NaN"

text \<open>\<open>Math.floor\<close>.\<close>

fun jfloor :: "jsnum \<Rightarrow> jsnum" where
  "jfloor (Fin a) = Fin (of_int \<lfloor>a\<rfloor>)"
| "jfloor x = x"

text \<open>\<open>Math.round\<close> on a finite number: the nearest integer, a tie going towards
  \<open>+\<infinity>\<close>.\<close>

definition math_round :: "rat \<Rightarrow> int" where
  "math_round x = \<lfloor>x + 1 / 2\<rfloor>"

text \<open>
  Rounding to double precision. \<open>bit_length k\<close> is the number of binary digits of
  \<open>k > 0\<close>, and \<open>ilog2 x\<close> the exponent \<open>e\<close> with \<open>2^e \<le> x < 2^(e + 1)\<close> of \<open>x > 0\<close>.
  \<open>fl x\<close> is the multiple of \<open>2^(e - 52)\<close> nearest to \<open>x\<close>, a tie going to the even
  multiple: the number with a significand of \<open>53\<close> bits that IEEE 754 division returns.
  The exponent is not limited: a quotient of a count of people by a desired size of at
  least \<open>2\<close> cannot overflow, and one small enough to underflow is rounded to \<open>0\<close> by
  \<open>Math.round\<close> in either case.
\<close>

function bit_length :: "int \<Rightarrow> int" where
  "bit_length k = (if k \<le> 0 then 0 else 1 + bit_length (k div 2))"
  by pat_completeness auto
termination
  by (relation "measure nat") auto

definition ilog2 :: "rat \<Rightarrow> int" where
  "ilog2 x =
     (case quotient_of x of (p, q) \<Rightarrow>
        let e = bit_length p - bit_length q
        in if 2 powi e \<le> x then e else e - 1)"

definition round_even :: "rat \<Rightarrow> int" where
  "round_even y =
     (let f = \<lfloor>y\<rfloor>; r = y - of_int f
      in if r < 1 / 2 then f
         else if 1 / 2 < r then f + 1
         else if even f then f else f + 1)"

definition fl_pos :: "rat \<Rightarrow> rat" where
  "fl_pos x = (let ulp = 2 powi (ilog2 x - 52) in of_int (round_even (x / ulp)) * ulp)"

definition fl :: "rat \<Rightarrow> rat" where
  "fl x = (if x = 0 then 0 else if 0 < x then fl_pos x else - fl_pos (- x))"

definition of_i :: "int \<Rightarrow> jsnum" where
  "of_i k = Fin (of_int k)"

section \<open>Errors\<close>

text \<open>
  Every \<open>throw\<close> of the program is a constructor: \<open>InvalidConfiguration\<close> is
  \<open>Group Size must be at least 2.\<close>, \<open>InsufficientRoleSupply r\<close> is
  \<open>Internal error: insufficient people with role "r".\<close>, \<open>GroupSizeMismatch\<close> is
  \<open>Internal allocation error: group sizes do not match targets.\<close>,
  \<open>AssignedCountMismatch\<close> is
  \<open>Internal allocation error: not all people were assigned exactly once.\<close>, and
  \<open>TypeError\<close> is the engine's own exception for calling \<open>push\<close> on a property
  inherited from \<open>Object.prototype\<close>.
\<close>

datatype error =
    InvalidConfiguration
  | InsufficientRoleSupply string
  | GroupSizeMismatch
  | AssignedCountMismatch
  | TypeError

section \<open>Group sizes\<close>

text \<open>
  \<open>computeGroupSizes(n, desiredGroupSize)\<close>, for an integer \<open>n\<close>. The quotient
  \<open>n / desiredGroupSize\<close> is rounded to a double before \<open>Math.round\<close> sees it; \<open>n\<close>,
  \<open>g\<close>, \<open>base\<close> and \<open>remainder\<close> are integers. \<open>Array.from({length: g}, f)\<close> is the list
  of \<open>f i\<close> for \<open>i = 0 .. g - 1\<close>; it exists for \<open>g\<close> up to \<open>2^32 - 1\<close>, which holds
  whenever \<open>n\<close> is the length of an array.
\<close>

definition computeGroupSizes :: "int \<Rightarrow> jsnum \<Rightarrow> error + int list" where
  "computeGroupSizes n desiredGroupSize =
     (case desiredGroupSize of
        Fin d \<Rightarrow>
          if d < 2 then Inl InvalidConfiguration
          else
            let g = max 1 (math_round (fl (of_int n / d)));
                base = \<lfloor>(of_int n :: rat) / of_int g\<rfloor>;
                remainder = n - base * g
            in Inr (map (\<lambda>i. base + (if int i < remainder then 1 else 0)) [0..<nat g])
      | _ \<Rightarrow> Inl InvalidConfiguration)"

section \<open>The random source and the shuffle\<close>

text \<open>
  \<open>Math.random()\<close> returns a double \<open>u / 2^53\<close> with \<open>0 \<le> u < 2^53\<close>; a draw is
  represented by \<open>u\<close>, and the random source by the sequence of the draws still to come.
  \<open>random_index u i\<close> is \<open>Math.floor(Math.random() * (i + 1))\<close>.
\<close>

type_synonym rng = "nat \<Rightarrow> 53 word"

definition random_index :: "53 word \<Rightarrow> nat \<Rightarrow> nat" where
  "random_index u i = (unat u * (i + 1)) div 2 ^ 53"

text \<open>\<open>shuffleInPlace\<close>: \<open>shuffle_from i\<close> is the loop from index \<open>i\<close> down to \<open>1\<close>. The
  destructuring swap reads both cells before it writes them.\<close>

fun shuffle_from :: "nat \<Rightarrow> rng \<Rightarrow> 'a list \<Rightarrow> 'a list \<times> rng" where
  "shuffle_from 0 rnd arr = (arr, rnd)"
| "shuffle_from (Suc i) rnd arr =
     (let j = random_index (rnd 0) (Suc i)
      in shuffle_from i (\<lambda>k. rnd (Suc k)) (arr[Suc i := arr ! j, j := arr ! Suc i]))"

definition shuffleInPlace :: "rng \<Rightarrow> 'a list \<Rightarrow> 'a list \<times> rng" where
  "shuffleInPlace rnd arr = shuffle_from (length arr - 1) rnd arr"

text \<open>The random source whose every draw is \<open>0\<close>.\<close>

definition zero_rng :: rng where
  "zero_rng = (\<lambda>k. 0)"


section \<open>Objects with string keys\<close>

text \<open>
  An object is the list of its own properties in insertion order, with distinct keys.
  \<open>Object.keys\<close> and \<open>for ... in\<close> list the keys that are array indices (canonical decimal
  numerals below \<open>2^32 - 1\<close>) first, in ascending numeric order, and then the other keys
  in insertion order.
\<close>

definition is_digit :: "char \<Rightarrow> bool" where
  "is_digit c = (48 \<le> (of_char c :: nat) \<and> (of_char c :: nat) \<le> 57)"

definition dec_val :: "string \<Rightarrow> nat" where
  "dec_val s = foldl (\<lambda>acc c. 10 * acc + ((of_char c :: nat) - 48)) 0 s"

definition is_array_index :: "string \<Rightarrow> bool" where
  "is_array_index s =
     (s \<noteq> [] \<and> list_all is_digit s \<and> (s = ''0'' \<or> hd s \<noteq> CHR ''0'') \<and>
      dec_val s < 2 ^ 32 - 1)"

definition object_keys :: "(string \<times> 'a) list \<Rightarrow> string list" where
  "object_keys obj =
     sort_key dec_val (filter is_array_index (map fst obj)) @
     filter (\<lambda>k. \<not> is_array_index k) (map fst obj)"

text \<open>The property names every object inherits from \<open>Object.prototype\<close>.\<close>

definition object_prototype_keys :: "string list" where
  "object_prototype_keys =
     [''constructor'', ''__defineGetter__'', ''__defineSetter__'', ''hasOwnProperty'',
      ''__lookupGetter__'', ''__lookupSetter__'', ''isPrototypeOf'',
      ''propertyIsEnumerable'', ''toString'', ''valueOf'', ''__proto__'',
      ''toLocaleString'']"

section \<open>Role targets\<close>

text \<open>
  The four tables of \<open>computeRoleTargets\<close>. The three objects have the keys \<open>roles\<close>
  from their creation on and are read at those keys only; each is represented by its
  lookup function.
\<close>

record rt_state =
  targets :: "string \<Rightarrow> jsnum list"
  remainders :: "string \<Rightarrow> jsnum list"
  extras :: "string \<Rightarrow> jsnum"
  deficits :: "jsnum list"

text \<open>\<open>xs.reduce((a, b) => a + b, 0)\<close>.\<close>

definition jsum :: "jsnum list \<Rightarrow> jsnum" where
  "jsum xs = foldl jadd (Fin 0) xs"

text \<open>\<open>countsByRole[r]\<close> as an operand of arithmetic: an absent property is \<open>undefined\<close>,
  which arithmetic turns into \<open>NaN\<close>.\<close>

definition count_of :: "(string \<times> int) list \<Rightarrow> string \<Rightarrow> jsnum" where
  "count_of countsByRole r = (case map_of countsByRole r of Some c \<Rightarrow> of_i c | None \<Rightarrow> NaN)"

text \<open>The body of the first loop for one role: the ideal quota \<open>q\<close> of every group, its
  floor, its fractional remainder, and the extras left over.\<close>

definition floor_role :: "int list \<Rightarrow> jsnum \<Rightarrow> jsnum \<Rightarrow> string \<Rightarrow> rt_state \<Rightarrow> rt_state" where
  "floor_role sizes n totalR r st =
     (let qs = map (\<lambda>s. jdiv (jmul (of_i s) totalR) n) sizes;
          sumFloors = jsum (map jfloor qs)
      in st\<lparr>targets := (targets st)(r := map jfloor qs),
            remainders := (remainders st)(r := map (\<lambda>q. jsub q (jfloor q)) qs),
            extras := (extras st)(r := jsub totalR sumFloors)\<rparr>)"

text \<open>The second loop: the seats left in every group.\<close>

definition group_deficits :: "int list \<Rightarrow> string list \<Rightarrow> rt_state \<Rightarrow> jsnum list" where
  "group_deficits sizes roles st =
     map (\<lambda>i. jsub (of_i (sizes ! i)) (foldl (\<lambda>acc r. jadd acc (targets st r ! i)) (Fin 0) roles))
       [0..<length sizes]"

text \<open>A pair \<open>{i, r, rem}\<close>.\<close>

type_synonym pair = "nat \<times> string \<times> jsnum"

definition make_pairs :: "nat \<Rightarrow> string list \<Rightarrow> rt_state \<Rightarrow> pair list" where
  "make_pairs g roles st =
     concat (map (\<lambda>r. map (\<lambda>i. (i, r, remainders st r ! i)) [0..<g]) roles)"

text \<open>
  \<open>pairs.sort((a, b) => b.rem - a.rem)\<close>: the sort is stable, and \<open>b\<close> goes before \<open>a\<close>
  only when \<open>b.rem - a.rem\<close> is positive (a \<open>NaN\<close> difference counts as zero).
\<close>

fun insert_pair :: "pair \<Rightarrow> pair list \<Rightarrow> pair list" where
  "insert_pair a [] = [a]"
| "insert_pair a (b # bs) =
     (if jgt (jsub (snd (snd b)) (snd (snd a))) (Fin 0) then b # insert_pair a bs
      else a # b # bs)"

definition sort_pairs :: "pair list \<Rightarrow> pair list" where
  "sort_pairs ps = foldr insert_pair ps []"

text \<open>The body of the largest-remainders pass.\<close>

definition bump :: "string \<Rightarrow> nat \<Rightarrow> rt_state \<Rightarrow> rt_state" where
  "bump r i st =
     st\<lparr>targets := (targets st)(r := (targets st r)[i := jadd (targets st r ! i) (Fin 1)]),
        extras := (extras st)(r := jsub (extras st r) (Fin 1)),
        deficits := (deficits st)[i := jsub (deficits st ! i) (Fin 1)]\<rparr>"

definition greedy_step :: "pair \<Rightarrow> rt_state \<Rightarrow> rt_state" where
  "greedy_step p st =
     (case p of (i, r, _) \<Rightarrow>
        if jle (extras st r) (Fin 0) then st
        else if jle (deficits st ! i) (Fin 0) then st
        else bump r i st)"

text \<open>The search for \<open>bestRole\<close> in group \<open>i\<close>; \<open>None\<close> is \<open>null\<close>.\<close>

definition best_step ::
  "rt_state \<Rightarrow> nat \<Rightarrow> string option \<times> jsnum \<times> jsnum \<Rightarrow> string \<Rightarrow> string option \<times> jsnum \<times> jsnum" where
  "best_step st i best r =
     (case best of (bestRole, bestRem, bestExtras) \<Rightarrow>
        if jgt (extras st r) (Fin 0) then
          (let rem = remainders st r ! i in
           if jgt rem bestRem \<or> (jeq rem bestRem \<and> jgt (extras st r) bestExtras)
           then (Some r, rem, extras st r)
           else best)
        else best)"

definition find_best :: "string list \<Rightarrow> rt_state \<Rightarrow> nat \<Rightarrow> string option" where
  "find_best roles st i = fst (foldl (best_step st i) (None, Fin (- 1), Fin (- 1)) roles)"

text \<open>\<open>!bestRole\<close> holds for \<open>null\<close> and for the empty string.\<close>

definition falsy :: "string option \<Rightarrow> bool" where
  "falsy b = (b = None \<or> b = Some [])"

text \<open>The loop \<open>while (deficits[i] > 0)\<close>, on the state and \<open>remainingDeficit\<close>.\<close>

partial_function (option) fill_group ::
  "string list \<Rightarrow> nat \<Rightarrow> rt_state \<times> jsnum \<Rightarrow> (rt_state \<times> jsnum) option" where
  "fill_group roles i sr =
     (case sr of (st, remainingDeficit) \<Rightarrow>
        if jgt (deficits st ! i) (Fin 0) then
          (let bestRole = find_best roles st i in
           if falsy bestRole then Some (st, remainingDeficit)
           else fill_group roles i (bump (the bestRole) i st, jsub remainingDeficit (Fin 1)))
        else Some (st, remainingDeficit))"

declare fill_group.simps [code]

text \<open>The loop \<open>for (let i = 0; i < g && remainingDeficit > 0; i++)\<close>, from \<open>i\<close> on.\<close>

function fill_groups ::
  "string list \<Rightarrow> nat \<Rightarrow> nat \<Rightarrow> rt_state \<times> jsnum \<Rightarrow> (rt_state \<times> jsnum) option" where
  "fill_groups roles g i sr =
     (if i < g \<and> jgt (snd sr) (Fin 0) then
        (case fill_group roles i sr of
           None \<Rightarrow> None
         | Some sr' \<Rightarrow> fill_groups roles g (Suc i) sr')
      else Some sr)"
  by pat_completeness auto
termination
  by (relation "measure (\<lambda>(roles, g, i, sr). g - i)") auto

text \<open>The loop \<open>while (remainingDeficit > 0)\<close> with its safety valve.\<close>

partial_function (option) residual ::
  "string list \<Rightarrow> nat \<Rightarrow> rt_state \<times> jsnum \<Rightarrow> rt_state option" where
  "residual roles g sr =
     (case sr of (st, remainingDeficit) \<Rightarrow>
        if jgt remainingDeficit (Fin 0) then
          (case fill_groups roles g 0 (st, remainingDeficit) of
             None \<Rightarrow> None
           | Some (st', _) \<Rightarrow>
               (let totalExtras = foldl (\<lambda>acc r. jadd acc (extras st' r)) (Fin 0) roles in
                if jeq totalExtras (Fin 0) then Some st'
                else residual roles g (st', jsum (deficits st'))))
        else Some st)"

declare residual.simps [code]

text \<open>
  \<open>computeRoleTargets(sizes, countsByRole)\<close>. The result is \<open>None\<close> when the call does not
  return; otherwise it is the object \<open>targets\<close>, as the list of its properties, and the
  random source after the call.
\<close>

definition init_state :: "nat \<Rightarrow> rt_state" where
  "init_state g =
     \<lparr>targets = (\<lambda>r. replicate g (Fin 0)), remainders = (\<lambda>r. replicate g (Fin 0)),
      extras = (\<lambda>r. Fin 0), deficits = replicate g (Fin 0)\<rparr>"

definition floors_state :: "int list \<Rightarrow> (string \<times> int) list \<Rightarrow> rt_state" where
  "floors_state sizes countsByRole =
     (let roles = object_keys countsByRole;
          g = length sizes;
          n = jsum (map of_i sizes);
          st = fold (\<lambda>r. floor_role sizes n (count_of countsByRole r) r) roles (init_state g)
      in st\<lparr>deficits := group_deficits sizes roles st\<rparr>)"

definition greedy_state :: "rng \<Rightarrow> int list \<Rightarrow> (string \<times> int) list \<Rightarrow> rt_state \<times> rng" where
  "greedy_state rnd sizes countsByRole =
     (let roles = object_keys countsByRole;
          g = length sizes;
          st = floors_state sizes countsByRole;
          (pairs, rnd') = shuffleInPlace rnd (make_pairs g roles st)
      in (fold greedy_step (sort_pairs pairs) st, rnd'))"

definition computeRoleTargets ::
  "rng \<Rightarrow> int list \<Rightarrow> (string \<times> int) list \<Rightarrow> ((string \<times> jsnum list) list \<times> rng) option" where
  "computeRoleTargets rnd sizes countsByRole =
     (let roles = object_keys countsByRole;
          g = length sizes;
          (st, rnd') = greedy_state rnd sizes countsByRole
      in case residual roles g (st, jsum (deficits st)) of
           None \<Rightarrow> None
         | Some st' \<Rightarrow> Some (map (\<lambda>r. (r, targets st' r)) roles, rnd'))"

section \<open>Allocation\<close>

record person =
  name :: string
  role :: string

type_synonym pools = "(string \<times> person list) list"

text \<open>
  \<open>if (!byRole[person.role]) byRole[person.role] = []; byRole[person.role].push(person)\<close>.
  A role that is not yet an own property but names a property of \<open>Object.prototype\<close>
  reads as that inherited (truthy) value, which has no \<open>push\<close>: the call throws.
\<close>

definition add_person :: "person \<Rightarrow> pools \<Rightarrow> error + pools" where
  "add_person p byRole =
     (case map_of byRole (role p) of
        Some pool \<Rightarrow> Inr (AList.update (role p) (pool @ [p]) byRole)
      | None \<Rightarrow>
          if role p \<in> set object_prototype_keys then Inl TypeError
          else Inr (byRole @ [(role p, [p])]))"

fun group_by_role :: "person list \<Rightarrow> pools \<Rightarrow> error + pools" where
  "group_by_role [] byRole = Inr byRole"
| "group_by_role (p # ps) byRole =
     (case add_person p byRole of
        Inl e \<Rightarrow> Inl e
      | Inr byRole' \<Rightarrow> group_by_role ps byRole')"

text \<open>\<open>byRole[r] || []\<close>, for a key \<open>r\<close> that is an own property or is not inherited.\<close>

definition pool_of :: "pools \<Rightarrow> string \<Rightarrow> person list" where
  "pool_of byRole r = (case map_of byRole r of Some pool \<Rightarrow> pool | None \<Rightarrow> [])"

definition shuffle_pool :: "string \<Rightarrow> pools \<times> rng \<Rightarrow> pools \<times> rng" where
  "shuffle_pool r br =
     (case br of (byRole, rnd) \<Rightarrow>
        (let (pool, rnd') = shuffleInPlace rnd (pool_of byRole r)
         in (AList.update r pool byRole, rnd')))"

text \<open>\<open>roleTargets[r][gi]\<close> as the bound of a loop: a missing entry is \<open>undefined\<close>, and
  \<open>k < undefined\<close> is false as \<open>k < NaN\<close> is.\<close>

definition need_at :: "(string \<times> jsnum list) list \<Rightarrow> string \<Rightarrow> nat \<Rightarrow> jsnum" where
  "need_at roleTargets r gi =
     (case map_of roleTargets r of
        Some row \<Rightarrow> if gi < length row then row ! gi else NaN
      | None \<Rightarrow> NaN)"

text \<open>The loop \<open>for (let k = 0; k < need; k++)\<close>, from \<open>k\<close> on, on the cursor \<open>idx\<close> and
  the group being filled.\<close>

function take_need ::
  "string \<Rightarrow> jsnum \<Rightarrow> nat \<Rightarrow> person list \<Rightarrow> nat \<Rightarrow> person list \<Rightarrow> error + (nat \<times> person list)" where
  "take_need r need k pool idx grp =
     (if jlt (of_i (int k)) need then
        (if length pool \<le> idx then Inl (InsufficientRoleSupply r)
         else take_need r need (Suc k) pool (Suc idx) (grp @ [pool ! idx]))
      else Inr (idx, grp))"
  by pat_completeness auto
termination
  by (relation "measure (\<lambda>(r, need, k, pool, idx, grp). length pool - idx)") auto

text \<open>The loop \<open>for (let gi = 0; gi < g; gi++)\<close> of one role, from \<open>gi\<close> on.\<close>

function assign_groups ::
  "(string \<times> jsnum list) list \<Rightarrow> string \<Rightarrow> person list \<Rightarrow> nat \<Rightarrow> nat \<Rightarrow> nat \<times> person list list \<Rightarrow>
     error + (nat \<times> person list list)" where
  "assign_groups roleTargets r pool g gi ig =
     (if gi < g then
        (case take_need r (need_at roleTargets r gi) 0 pool (fst ig) (snd ig ! gi) of
           Inl e \<Rightarrow> Inl e
         | Inr (idx', grp) \<Rightarrow> assign_groups roleTargets r pool g (Suc gi) (idx', (snd ig)[gi := grp]))
      else Inr ig)"
  by pat_completeness auto
termination
  by (relation "measure (\<lambda>(roleTargets, r, pool, g, gi, ig). g - gi)") auto

text \<open>The body of the loop over the roles: fill the groups from the pool of \<open>r\<close>, then
  keep \<open>pool.slice(idx)\<close>.\<close>

definition assign_role ::
  "(string \<times> jsnum list) list \<Rightarrow> nat \<Rightarrow> string \<Rightarrow> pools \<times> person list list \<Rightarrow>
     error + (pools \<times> person list list)" where
  "assign_role roleTargets g r bg =
     (case bg of (byRole, groups) \<Rightarrow>
        (let pool = pool_of byRole r in
         case assign_groups roleTargets r pool g 0 (0, groups) of
           Inl e \<Rightarrow> Inl e
         | Inr (idx, groups') \<Rightarrow> Inr (AList.update r (drop idx pool) byRole, groups')))"

fun assign_roles ::
  "(string \<times> jsnum list) list \<Rightarrow> nat \<Rightarrow> string list \<Rightarrow> pools \<times> person list list \<Rightarrow>
     error + (pools \<times> person list list)" where
  "assign_roles roleTargets g [] bg = Inr bg"
| "assign_roles roleTargets g (r # rs) bg =
     (case assign_role roleTargets g r bg of
        Inl e \<Rightarrow> Inl e
      | Inr bg' \<Rightarrow> assign_roles roleTargets g rs bg')"

text \<open>The loop \<open>while (groups[gi].length < sizes[gi] && leftovers.length > 0)\<close>;
  \<open>pop\<close> takes the last element.\<close>

function top_up :: "int \<Rightarrow> person list \<Rightarrow> person list \<Rightarrow> person list \<times> person list" where
  "top_up cap grp leftovers =
     (if int (length grp) < cap \<and> leftovers \<noteq> [] then
        top_up cap (grp @ [last leftovers]) (butlast leftovers)
      else (grp, leftovers))"
  by pat_completeness auto
termination
  by (relation "measure (\<lambda>(cap, grp, leftovers). length leftovers)") auto

text \<open>The loop \<open>for (let gi = 0; gi < g && leftovers.length > 0; gi++)\<close>, from \<open>gi\<close> on.\<close>

function distribute ::
  "int list \<Rightarrow> nat \<Rightarrow> nat \<Rightarrow> person list list \<times> person list \<Rightarrow> person list list \<times> person list" where
  "distribute sizes g gi gl =
     (if gi < g \<and> snd gl \<noteq> [] then
        (let (grp, leftovers') = top_up (sizes ! gi) (fst gl ! gi) (snd gl)
         in distribute sizes g (Suc gi) ((fst gl)[gi := grp], leftovers'))
      else gl)"
  by pat_completeness auto
termination
  by (relation "measure (\<lambda>(sizes, g, gi, gl). g - gi)") auto

text \<open>
  \<open>allocateGroups(people, groupSize)\<close>. The result is \<open>None\<close> when the call does not
  return, \<open>Some (Inl e)\<close> when it throws and \<open>Some (Inr (groups, annotated))\<close> when it
  returns.
\<close>

definition allocateGroups ::
  "rng \<Rightarrow> person list \<Rightarrow> jsnum \<Rightarrow>
     (error + (person list list \<times> (string \<times> string \<times> nat) list)) option" where
  "allocateGroups rnd people groupSize =
     (let n = int (length people) in
      case computeGroupSizes n groupSize of
        Inl e \<Rightarrow> Some (Inl e)
      | Inr sizes \<Rightarrow>
         (case group_by_role people [] of
            Inl e \<Rightarrow> Some (Inl e)
          | Inr byRole0 \<Rightarrow>
             (let (byRole, rnd1) = fold shuffle_pool (object_keys byRole0) (byRole0, rnd);
                  roles = object_keys byRole;
                  counts = map (\<lambda>r. (r, int (length (pool_of byRole r)))) roles
              in case computeRoleTargets rnd1 sizes counts of
                   None \<Rightarrow> None
                 | Some (roleTargets, rnd2) \<Rightarrow>
                    (let g = length sizes;
                         groups = replicate g []
                     in case assign_roles roleTargets g (object_keys roleTargets) (byRole, groups) of
                          Inl e \<Rightarrow> Some (Inl e)
                        | Inr (byRole', groups') \<Rightarrow>
                           (let leftovers = concat (map (pool_of byRole') (object_keys byRole'));
                                (leftovers', rnd3) = shuffleInPlace rnd2 leftovers;
                                (groups'', _) = distribute sizes g 0 (groups', leftovers');
                                assignedCount = sum_list (map length groups'')
                            in if list_ex (\<lambda>gi. int (length (groups'' ! gi)) \<noteq> sizes ! gi) [0..<g]
                               then Some (Inl GroupSizeMismatch)
                               else if int assignedCount \<noteq> n
                               then Some (Inl AssignedCountMismatch)
                               else Some (Inr (groups'',
                                      concat (map (\<lambda>gi. map (\<lambda>p. (name p, role p, gi + 1))
                                                            (groups'' ! gi)) [0..<g]))))))))"

section \<open>Auxiliary definitions: the tables as integers\<close>

text \<open>
  The definitions of this section are not part of the program; the proofs use them.
  When the capacities do not sum to zero every entry of the tables is an integer, and
  the tables are described by integer-valued functions \<open>(tg, ex, df)\<close> for \<open>targets\<close>,
  \<open>extras\<close> and \<open>deficits\<close>: \<open>ifloors\<close> is the tables after the floors, \<open>istep\<close> one
  step of the largest-remainders pass, \<open>ibump\<close> one increment, \<open>rel\<close> the correspondence
  between a state of \<open>computeRoleTargets\<close> and its integer description, and \<open>inv\<close> the
  invariant of both passes: the column sums with the extras give the counts \<open>T\<close>, the
  row sums with the deficits give the capacities \<open>S\<close>, the extras stay non-negative,
  and targets and deficits keep the bounds given by the tables \<open>s0\<close> after the floors.
  \<open>total_of\<close> reads a count as an integer.
\<close>

type_synonym istate = "(string \<Rightarrow> nat \<Rightarrow> int) \<times> (string \<Rightarrow> int) \<times> (nat \<Rightarrow> int)"

definition total_of :: "(string \<times> int) list \<Rightarrow> string \<Rightarrow> int" where
  "total_of countsByRole r = (case map_of countsByRole r of Some c \<Rightarrow> c | None \<Rightarrow> 0)"

definition ifloors :: "int list \<Rightarrow> (string \<times> int) list \<Rightarrow> istate" where
  "ifloors sizes countsByRole =
     (let n = sum_list sizes; T = total_of countsByRole in
      (\<lambda>r i. (sizes ! i * T r) div n,
       \<lambda>r. T r - (\<Sum>i<length sizes. (sizes ! i * T r) div n),
       \<lambda>i. sizes ! i - (\<Sum>r\<leftarrow>object_keys countsByRole. (sizes ! i * T r) div n)))"

definition istep :: "pair \<Rightarrow> istate \<Rightarrow> istate" where
  "istep p s =
     (case (p, s) of ((i, r, _), (tg, ex, df)) \<Rightarrow>
        if ex r \<le> 0 then s
        else if df i \<le> 0 then s
        else (tg(r := (tg r)(i := tg r i + 1)), ex(r := ex r - 1), df(i := df i - 1)))"

definition rel :: "string list \<Rightarrow> nat \<Rightarrow> rt_state \<Rightarrow> istate \<Rightarrow> bool" where
  "rel roles g st s =
     (case s of (tg, ex, df) \<Rightarrow>
        (\<forall>r \<in> set roles. targets st r = map (\<lambda>i. of_i (tg r i)) [0..<g] \<and>
                           extras st r = of_i (ex r)) \<and>
        deficits st = map (\<lambda>i. of_i (df i)) [0..<g])"

definition ibump :: "string \<Rightarrow> nat \<Rightarrow> istate \<Rightarrow> istate" where
  "ibump r i s =
     (case s of (tg, ex, df) \<Rightarrow>
        (tg(r := (tg r)(i := tg r i + 1)), ex(r := ex r - 1), df(i := df i - 1)))"

definition inv ::
  "string set \<Rightarrow> nat \<Rightarrow> (string \<Rightarrow> int) \<Rightarrow> (nat \<Rightarrow> int) \<Rightarrow> istate \<Rightarrow> istate \<Rightarrow> bool" where
  "inv R g T S s0 s =
     (case (s0, s) of ((tg0, ex0, df0), (tg, ex, df)) \<Rightarrow>
        (\<forall>r \<in> R. ex r + (\<Sum>i<g. tg r i) = T r \<and> 0 \<le> ex r \<and> (\<forall>i<g. tg0 r i \<le> tg r i)) \<and>
        (\<forall>i<g. df i + (\<Sum>r \<in> R. tg r i) = S i \<and> min 0 (df0 i) \<le> df i))"

text \<open>The equations of the loops are applied one step at a time.\<close>

declare bit_length.simps [simp del]
declare fill_groups.simps [simp del]
declare take_need.simps [simp del]
declare assign_groups.simps [simp del]
declare top_up.simps [simp del]
declare distribute.simps [simp del]

text \<open>A roster of three people, for evaluating the program on a concrete input.\<close>

definition sample_roster :: "person list" where
  "sample_roster =
     [\<lparr>name = ''Ann'', role = ''dev''\<rparr>, \<lparr>name = ''Bob'', role = ''ops''\<rparr>,
      \<lparr>name = ''Cy'', role = ''dev''\<rparr>]"



text \<open>The people of all pools of \<open>byRole\<close>, as a multiset.\<close>

definition pm :: "pools \<Rightarrow> person multiset" where
  "pm byRole = mset (concat (map snd byRole))"

text \<open>The fractional remainders of the roles are finite and non-negative.\<close>

definition rems_ok :: "string list \<Rightarrow> nat \<Rightarrow> (string \<Rightarrow> jsnum list) \<Rightarrow> bool" where
  "rems_ok roles g rems = (\<forall>r \<in> set roles. \<forall>i<g. \<exists>q. rems r ! i = Fin q \<and> 0 \<le> q)"

section \<open>Properties of the group sizes\<close>

subsection \<open>Rounding to double precision\<close>

lemma bit_length_bounds:
  "0 < k \<Longrightarrow> 1 \<le> bit_length k \<and> 2 ^ nat (bit_length k - 1) \<le> k \<and> k < 2 ^ nat (bit_length k)"
proof (induction k rule: bit_length.induct)
  case (1 k)
  show ?case
  proof (cases "k = 1")
    case True
    then show ?thesis by (simp add: bit_length.simps [of 1] bit_length.simps [of 0])
  next
    case False
    with 1(2) have k2: "0 < k div 2" by simp
    from 1(1) [OF _ k2] 1(2)
    have ih: "1 \<le> bit_length (k div 2)" "2 ^ nat (bit_length (k div 2) - 1) \<le> k div 2"
      "k div 2 < 2 ^ nat (bit_length (k div 2))" by simp_all
    have e: "bit_length k = 1 + bit_length (k div 2)"
      using 1(2) by (subst bit_length.simps) simp
    have n1: "nat (bit_length k - 1) = Suc (nat (bit_length (k div 2) - 1))"
      using ih(1) e by simp
    have n2: "nat (bit_length k) = Suc (nat (bit_length (k div 2)))"
      using ih(1) e by simp
    have d: "2 * (k div 2) \<le> k" "k < 2 * (k div 2) + 2"
      by presburger+
    have "1 \<le> bit_length k" using ih(1) e by simp
    moreover have "2 ^ nat (bit_length k - 1) \<le> k"
      unfolding n1 using ih(2) d(1) by simp
    moreover have "k < 2 ^ nat (bit_length k)"
      unfolding n2 using ih(3) d(2) by simp
    ultimately show ?thesis by simp
  qed
qed

text \<open>The exponent is not above the number.\<close>

lemma ilog2_le:
  assumes "0 < x"
  shows "2 powi (ilog2 x) \<le> x"
proof -
  obtain p q where pq: "quotient_of x = (p, q)" by (cases "quotient_of x")
  have q: "0 < q" using quotient_of_denom_pos [OF pq] .
  have x: "x = of_int p / of_int q" using quotient_of_div [OF pq] .
  have p: "0 < p" using assms q unfolding x by (simp add: zero_less_divide_iff)
  define e where "e = bit_length p - bit_length q"
  have il: "ilog2 x = (if 2 powi e \<le> x then e else e - 1)"
    by (simp add: ilog2_def pq Let_def e_def)
  have "2 powi (e - 1) \<le> x"
  proof -
    from bit_length_bounds [OF p]
    have bp: "1 \<le> bit_length p" "2 ^ nat (bit_length p - 1) \<le> p" by simp_all
    from bit_length_bounds [OF q]
    have bq: "1 \<le> bit_length q" "q < 2 ^ nat (bit_length q)" by simp_all
    have a: "(2::rat) powi (bit_length p - 1) \<le> of_int p"
    proof -
      have "(2::rat) powi (bit_length p - 1) = 2 ^ nat (bit_length p - 1)"
        using bp(1) by (simp add: power_int_def)
      also have "\<dots> = of_int (2 ^ nat (bit_length p - 1))" by simp
      also have "\<dots> \<le> of_int p" using bp(2) by (simp only: of_int_le_iff)
      finally show ?thesis .
    qed
    have b: "of_int q \<le> (2::rat) powi (bit_length q)"
    proof -
      have "(of_int q :: rat) \<le> of_int (2 ^ nat (bit_length q))"
        using bq(2) by (simp only: of_int_le_iff)
      also have "\<dots> = 2 ^ nat (bit_length q)" by simp
      also have "\<dots> = (2::rat) powi (bit_length q)"
        using bq(1) by (simp add: power_int_def)
      finally show ?thesis .
    qed
    have "(2::rat) powi (e - 1) = 2 powi (bit_length p - 1) / 2 powi (bit_length q)"
      unfolding e_def by (simp add: power_int_diff)
    also have "\<dots> \<le> of_int p / 2 powi (bit_length q)"
      using a by (simp add: divide_right_mono)
    also have "\<dots> \<le> of_int p / of_int q"
      using b p q by (intro divide_left_mono) auto
    finally show ?thesis unfolding x .
  qed
  then show ?thesis unfolding il by simp
qed

lemma round_even_bounds:
  "\<lfloor>y\<rfloor> \<le> round_even y" "of_int (round_even y) \<le> y + 1 / 2"
proof -
  have f: "of_int \<lfloor>y\<rfloor> \<le> y" by simp
  show "\<lfloor>y\<rfloor> \<le> round_even y"
    by (simp add: round_even_def Let_def)
  show "of_int (round_even y) \<le> y + 1 / 2"
    unfolding round_even_def Let_def using f by (simp split: if_splits) linarith
qed

text \<open>Rounding keeps a number non-negative and does not double it.\<close>

lemma fl_bounds:
  assumes "0 \<le> x"
  shows "0 \<le> fl x" and "fl x \<le> 2 * x"
proof -
  have "0 \<le> fl x \<and> fl x \<le> 2 * x"
  proof (cases "x = 0")
    case True then show ?thesis by (simp add: fl_def)
  next
    case False
    with assms have x: "0 < x" by simp
    define u :: rat where "u = 2 powi (ilog2 x - 52)"
    have u: "0 < u" by (simp add: u_def)
    have "u = 2 powi (ilog2 x) / 2 ^ 52"
      by (simp add: u_def power_int_diff)
    also have "\<dots> \<le> x / 2 ^ 52"
      using ilog2_le [OF x] by (simp add: divide_right_mono)
    finally have ux: "u \<le> x / 2 ^ 52" .
    then have "u \<le> x" using x by simp
    then have y1: "1 \<le> x / u" using u by (simp add: le_divide_eq)
    have f: "fl x = of_int (round_even (x / u)) * u"
      using x by (simp add: fl_def fl_pos_def u_def Let_def)
    have "0 \<le> \<lfloor>x / u\<rfloor>" using y1 by simp
    then have m0: "0 \<le> round_even (x / u)"
      using round_even_bounds(1) [of "x / u"] by linarith
    have "of_int (round_even (x / u)) \<le> x / u + 1 / 2"
      by (rule round_even_bounds(2))
    also have "\<dots> \<le> 2 * (x / u)" using y1 by simp
    finally have "of_int (round_even (x / u)) * u \<le> 2 * (x / u) * u"
      using u by (simp only: mult_right_mono less_imp_le)
    also have "\<dots> = 2 * x" using u by simp
    finally have "fl x \<le> 2 * x" unfolding f .
    moreover have "0 \<le> fl x" unfolding f using m0 u by simp
    ultimately show ?thesis by simp
  qed
  then show "0 \<le> fl x" and "fl x \<le> 2 * x" by simp_all
qed

text \<open>The number is below the next power of two.\<close>

lemma ilog2_less:
  assumes "0 < x"
  shows "x < 2 powi (ilog2 x + 1)"
proof -
  obtain p q where pq: "quotient_of x = (p, q)" by (cases "quotient_of x")
  have q: "0 < q" using quotient_of_denom_pos [OF pq] .
  have x: "x = of_int p / of_int q" using quotient_of_div [OF pq] .
  have p: "0 < p" using assms q unfolding x by (simp add: zero_less_divide_iff)
  define e where "e = bit_length p - bit_length q"
  have il: "ilog2 x = (if 2 powi e \<le> x then e else e - 1)"
    by (simp add: ilog2_def pq Let_def e_def)
  have "x < 2 powi (e + 1)"
  proof -
    from bit_length_bounds [OF p]
    have bp: "1 \<le> bit_length p" "p < 2 ^ nat (bit_length p)" by simp_all
    from bit_length_bounds [OF q]
    have bq: "1 \<le> bit_length q" "2 ^ nat (bit_length q - 1) \<le> q" by simp_all
    have a: "of_int p < (2::rat) powi (bit_length p)"
    proof -
      have "(of_int p :: rat) < of_int (2 ^ nat (bit_length p))"
        using bp(2) by (simp only: of_int_less_iff)
      also have "\<dots> = 2 ^ nat (bit_length p)" by simp
      also have "\<dots> = (2::rat) powi (bit_length p)"
        using bp(1) by (simp add: power_int_def)
      finally show ?thesis .
    qed
    have b: "(2::rat) powi (bit_length q - 1) \<le> of_int q"
    proof -
      have "(2::rat) powi (bit_length q - 1) = 2 ^ nat (bit_length q - 1)"
        using bq(1) by (simp add: power_int_def)
      also have "\<dots> = of_int (2 ^ nat (bit_length q - 1))" by simp
      also have "\<dots> \<le> of_int q" using bq(2) by (simp only: of_int_le_iff)
      finally show ?thesis .
    qed
    have "x = of_int p / of_int q" by (rule x)
    also have "\<dots> < 2 powi (bit_length p) / of_int q"
      using a q by (simp add: divide_strict_right_mono)
    also have "\<dots> \<le> 2 powi (bit_length p) / 2 powi (bit_length q - 1)"
      using b q by (intro divide_left_mono) (auto simp: zero_less_mult_iff)
    also have "\<dots> = 2 powi (bit_length p - (bit_length q - 1))"
      by (rule power_int_diff [symmetric]) simp
    also have "bit_length p - (bit_length q - 1) = e + 1"
      by (simp add: e_def)
    finally show ?thesis .
  qed
  then show ?thesis unfolding il by (auto simp: not_le)
qed

lemma round_even_of_int: "round_even (of_int m) = m"
  by (simp add: round_even_def)

text \<open>Below \<open>2^53\<close> the doubles are spaced \<open>1 / N\<close> apart, for an integer \<open>N\<close>.\<close>

lemma ulp_inverse:
  assumes "0 < x" and "x < 2 ^ 53"
  shows "\<exists>N :: int. 0 < N \<and> (2::rat) powi (ilog2 x - 52) = 1 / of_int N \<and>
           (2 ^ 52 :: rat) / x \<le> of_int N"
proof -
  have "(2::rat) powi (ilog2 x) \<le> x" by (rule ilog2_le [OF assms(1)])
  also have "\<dots> < 2 powi 53" using assms(2) by simp
  finally have "ilog2 x < 53"
    by (rule power_int_le_imp_less_exp [rotated]) simp_all
  then have e: "ilog2 x \<le> 52" by simp
  define N :: int where "N = 2 ^ nat (52 - ilog2 x)"
  have N: "0 < N" by (simp add: N_def)
  have "(2::rat) powi (ilog2 x - 52) = 1 / 2 powi (52 - ilog2 x)"
    by (simp add: power_int_diff)
  also have "(2::rat) powi (52 - ilog2 x) = 2 ^ nat (52 - ilog2 x)"
    using e by (simp add: power_int_def)
  also have "\<dots> = of_int N" by (simp add: N_def)
  finally have u: "2 powi (ilog2 x - 52) = 1 / (of_int N :: rat)" .
  have N2: "(of_int N :: rat) = 2 ^ 52 / 2 powi (ilog2 x)"
    using u by (simp add: power_int_diff field_simps)
  have "(2 ^ 52 :: rat) / x \<le> of_int N"
    unfolding N2 using ilog2_le [OF assms(1)] assms(1)
    by (intro divide_left_mono) (auto simp: zero_less_mult_iff)
  then show ?thesis using N u by blast
qed

lemma fl_pos_eq:
  assumes "0 < x" and "(2::rat) powi (ilog2 x - 52) = 1 / of_int N" and "0 < N"
  shows "fl x = of_int (round_even (x * of_int N)) / of_int N"
  using assms by (simp add: fl_def fl_pos_def Let_def)

text \<open>An integer below \<open>2^53\<close> is a double.\<close>

lemma fl_of_int:
  assumes "\<bar>k\<bar> \<le> 2 ^ 53"
  shows "fl (of_int k) = of_int k"
proof -
  have pos: "fl (of_int j) = of_int j" if j: "0 < j" "j \<le> 2 ^ 53" for j :: int
  proof (cases "j = 2 ^ 53")
    case True
    have "fl 9007199254740992 = 9007199254740992"
      by code_simp
    then show ?thesis unfolding True by simp
  next
    case False
    with j have lt: "(of_int j :: rat) < 2 ^ 53"
      by (metis le_neq_trans of_int_less_iff of_int_numeral of_int_power)
    have j0: "0 < (of_int j :: rat)" using j by simp
    from ulp_inverse [OF j0 lt] obtain N :: int
      where N: "0 < N" "2 powi (ilog2 (of_int j) - 52) = 1 / (of_int N :: rat)"
      by blast
    have "fl (of_int j) = of_int (round_even (of_int j * of_int N)) / of_int N"
      by (rule fl_pos_eq [OF j0 N(2,1)])
    also have "round_even (of_int j * of_int N) = j * N"
      using round_even_of_int [of "j * N"] by simp
    finally show ?thesis using N(1) by simp
  qed
  consider "k = 0" | "0 < k" | "k < 0" by linarith
  then show ?thesis
  proof cases
    case 1 then show ?thesis by (simp add: fl_def)
  next
    case 2 then show ?thesis using pos [of k] assms by simp
  next
    case 3
    then have "fl (of_int (- k)) = of_int (- k)" using pos [of "- k"] assms by simp
    then show ?thesis using 3 by (simp add: fl_def)
  qed
qed

text \<open>The floor of the rounded quotient of two integers is the floor of the quotient,
  for a dividend below \<open>2^53\<close>.\<close>

lemma floor_fl_div:
  assumes "0 \<le> a" and "a < 2 ^ 53" and "0 < n"
  shows "\<lfloor>fl (of_int a / of_int n)\<rfloor> = a div n"
proof (cases "a = 0")
  case True
  then show ?thesis by (simp add: fl_def)
next
  case False
  with assms have a: "0 < a" by simp
  define x :: rat where "x = of_int a / of_int n"
  define k where "k = a div n"
  have x0: "0 < x" using a assms(3) by (simp add: x_def)
  have an: "(of_int a :: rat) < 2 ^ 53"
    using assms(2) by (metis of_int_less_iff of_int_numeral of_int_power)
  have "x \<le> of_int a"
    using a assms(3) by (simp add: x_def divide_le_eq mult_le_cancel_left1 flip: of_int_mult)
  with an have x53: "x < 2 ^ 53" by simp
  from ulp_inverse [OF x0 x53] obtain N :: int
    where N: "0 < N" "2 powi (ilog2 x - 52) = 1 / (of_int N :: rat)"
      "(2 ^ 52 :: rat) / x \<le> of_int N"
    by blast
  have f: "fl x = of_int (round_even (x * of_int N)) / of_int N"
    by (rule fl_pos_eq [OF x0 N(2,1)])
  have km: "n * k + a mod n = a"
    unfolding k_def by simp
  have m0: "0 \<le> a mod n" and m1: "a mod n \<le> n - 1"
    using assms(3) by simp_all
  have "k * n \<le> a"
    using km m0 by (simp add: mult.commute)
  then have "(of_int (k * n) :: rat) \<le> of_int a"
    by (simp only: of_int_le_iff)
  then have kx: "of_int k \<le> x"
    unfolding x_def using assms(3) by (simp add: le_divide_eq)
  have xk: "x \<le> of_int (k + 1) - 1 / of_int n"
  proof -
    have "a \<le> n * (k + 1) - 1"
      using km m1 by (simp add: algebra_simps)
    then have "(of_int a :: rat) \<le> of_int (n * (k + 1) - 1)"
      by (simp only: of_int_le_iff)
    then show ?thesis
      unfolding x_def using assms(3) by (simp add: field_simps)
  qed
  have lower: "of_int k \<le> fl x"
  proof -
    have "(of_int (k * N) :: rat) \<le> x * of_int N"
      using kx N(1) by (simp add: mult_right_mono)
    then have "k * N \<le> \<lfloor>x * of_int N\<rfloor>"
      by (simp only: le_floor_iff)
    also have "\<dots> \<le> round_even (x * of_int N)"
      by (rule round_even_bounds(1))
    finally have "(of_int (k * N) :: rat) \<le> of_int (round_even (x * of_int N))"
      by (simp only: of_int_le_iff)
    then show ?thesis
      unfolding f using N(1) by (simp add: le_divide_eq)
  qed
  have upper: "fl x < of_int (k + 1)"
  proof -
    have half: "1 / 2 < (of_int N :: rat) / of_int n"
    proof -
      have "(of_int n :: rat) / 2 < 2 ^ 52 / x"
        using a assms(3) an by (simp add: x_def field_simps)
      also have "\<dots> \<le> of_int N" by (rule N(3))
      finally show ?thesis using assms(3) by (simp add: field_simps)
    qed
    have "of_int (round_even (x * of_int N)) \<le> x * of_int N + 1 / 2"
      by (rule round_even_bounds(2))
    also have "\<dots> \<le> (of_int (k + 1) - 1 / of_int n) * of_int N + 1 / 2"
      using xk N(1) by (simp add: mult_right_mono)
    also have "\<dots> < of_int (k + 1) * of_int N"
      using half by (simp add: algebra_simps)
    finally show ?thesis
      unfolding f using N(1) by (simp add: divide_less_eq)
  qed
  have "\<lfloor>fl x\<rfloor> = k"
    by (rule floor_unique) (use lower upper in simp_all)
  then show ?thesis unfolding x_def k_def .
qed

subsection \<open>The sizes\<close>

lemma floor_rat_div: "\<lfloor>(of_int n :: rat) / of_int g\<rfloor> = n div g"
  by (simp add: floor_divide_of_int_eq)

lemma group_count_le:
  assumes "2 \<le> n" and "2 \<le> d"
  shows "max 1 (math_round (fl (of_int n / d))) \<le> n"
proof -
  have x0: "0 \<le> (of_int n :: rat) / d"
    using assms by simp
  have "(of_int n :: rat) / d \<le> of_int n / 2"
    using assms by (intro divide_left_mono) auto
  with fl_bounds(2) [OF x0] have "fl (of_int n / d) \<le> of_int n"
    by linarith
  then have "fl (of_int n / d) + 1 / 2 \<le> of_int n + 1 / 2"
    by simp
  then have "math_round (fl (of_int n / d)) \<le> \<lfloor>(of_int n :: rat) + 1 / 2\<rfloor>"
    unfolding math_round_def by (rule floor_mono)
  also have "\<dots> = n"
    by (rule floor_unique) simp_all
  finally show ?thesis using assms by simp
qed

lemma sizes_as_replicate:
  assumes "0 < g"
  shows "map (\<lambda>i. n div g + (if int i < n mod g then 1 else 0)) [0..<nat g]
           = replicate (nat (n mod g)) (n div g + 1) @ replicate (nat g - nat (n mod g)) (n div g)"
proof -
  have lt: "nat (n mod g) \<le> nat g"
    using assms by (simp add: nat_le_eq_zle less_imp_le)
  have nn: "0 \<le> n mod g" using assms by simp
  have split: "[0..<nat g] = [0..<nat (n mod g)] @ [nat (n mod g)..<nat g]"
    using lt by (metis le_add_diff_inverse upt_add_eq_append zero_le)
  have a: "map (\<lambda>i. n div g + (if int i < n mod g then 1 else 0)) [0..<nat (n mod g)]
             = replicate (nat (n mod g)) (n div g + 1)"
    by (rule nth_equalityI) (use nn in auto)
  have b: "map (\<lambda>i. n div g + (if int i < n mod g then 1 else 0)) [nat (n mod g)..<nat g]
             = replicate (nat g - nat (n mod g)) (n div g)"
    by (rule nth_equalityI) (use nn in auto)
  show ?thesis
    by (subst split) (simp only: map_append a b)
qed

lemma computeGroupSizes_finite:
  assumes "2 \<le> d"
  shows "computeGroupSizes n (Fin d) =
           (let g = max 1 (math_round (fl (of_int n / d))) in
            Inr (replicate (nat (n mod g)) (n div g + 1) @
                 replicate (nat g - nat (n mod g)) (n div g)))"
proof -
  define g where "g = max 1 (math_round (fl (of_int n / d)))"
  have g: "0 < g" by (simp add: g_def)
  have rem: "n - n div g * g = n mod g"
    by (simp add: minus_div_mult_eq_mod)
  show ?thesis
    using assms sizes_as_replicate [OF g, of n]
    by (simp add: computeGroupSizes_def Let_def floor_rat_div rem flip: g_def)
qed

lemma group_sizes_facts:
  assumes "0 < g" and "g \<le> n"
  defines "sizes \<equiv> replicate (nat (n mod g)) (n div g + 1) @
                     replicate (nat g - nat (n mod g)) (n div g)"
  shows "length sizes = nat g" and "sum_list sizes = n"
    and "\<forall>s \<in> set sizes. 1 \<le> s" and "\<forall>a \<in> set sizes. \<forall>b \<in> set sizes. a - b \<le> 1"
proof -
  have nn: "0 \<le> n mod g" and lt: "n mod g < g"
    using assms(1) by simp_all
  have base: "1 \<le> n div g"
    using assms(1,2) pos_imp_zdiv_pos_iff [of g n] by linarith
  show "length sizes = nat g"
    using nn lt by (simp add: sizes_def)
  have "sum_list sizes = (n mod g) * (n div g + 1) + (g - n mod g) * (n div g)"
    using nn lt by (simp add: sizes_def sum_list_replicate nat_diff_distrib)
  also have "\<dots> = g * (n div g) + n mod g"
    by (simp add: algebra_simps)
  finally show "sum_list sizes = n"
    by simp
  show "\<forall>s \<in> set sizes. 1 \<le> s"
    using base by (auto simp: sizes_def)
  show "\<forall>a \<in> set sizes. \<forall>b \<in> set sizes. a - b \<le> 1"
    by (auto simp: sizes_def)
qed

text \<open>
  C3: for every roster size \<open>n \<ge> 2\<close> (the length of an array, so below \<open>2^32\<close>) and
  every finite desired size \<open>d \<ge> 2\<close>, \<open>computeGroupSizes\<close> returns a list of
  \<open>g = max(1, round(n / d))\<close> sizes whose first \<open>n - base * g\<close> entries are \<open>base + 1\<close> and
  whose other entries are \<open>base = floor(n / g)\<close>, both quotients being the doubles that
  the divisions return; \<open>base\<close> is the integer quotient of \<open>n\<close> by \<open>g\<close>, there are at most
  \<open>n\<close> groups, the sizes sum to \<open>n\<close>, each is at least \<open>1\<close>, and any two differ by at most
  \<open>1\<close>.
\<close>

theorem computeGroupSizes_shape:
  assumes "2 \<le> n" and "n < 2 ^ 32" and "2 \<le> d"
  shows "\<exists>sizes. computeGroupSizes n (Fin d) = Inr sizes \<and>
           (let g = max 1 (math_round (fl (of_int n / d)));
                base = \<lfloor>fl (of_int n / of_int g)\<rfloor>
            in 1 \<le> g \<and> g \<le> n \<and> base = n div g \<and>
               length sizes = nat g \<and> length sizes < 2 ^ 32 \<and>
               sizes = replicate (nat (n - base * g)) (base + 1) @
                       replicate (nat g - nat (n - base * g)) base \<and>
               sum_list sizes = n \<and>
               (\<forall>s \<in> set sizes. 1 \<le> s) \<and>
               (\<forall>a \<in> set sizes. \<forall>b \<in> set sizes. a - b \<le> 1))"
proof -
  define g where "g = max 1 (math_round (fl (of_int n / d)))"
  have g: "0 < g" "g \<le> n"
    using group_count_le [OF assms(1,3)] by (simp_all add: g_def)
  have rem: "n - n div g * g = n mod g"
    by (simp add: minus_div_mult_eq_mod)
  have lt: "nat g < 2 ^ 32"
    using g assms(2) by (simp add: nat_less_iff)
  have n53: "0 \<le> n" "n < 2 ^ 53"
    using assms(1,2) by simp_all
  have base: "\<lfloor>fl (of_int n / of_int g)\<rfloor> = n div g"
    by (rule floor_fl_div [OF n53 g(1)])
  define sizes where "sizes = replicate (nat (n mod g)) (n div g + 1) @
                                replicate (nat g - nat (n mod g)) (n div g)"
  have res: "computeGroupSizes n (Fin d) = Inr sizes"
    using computeGroupSizes_finite [OF assms(3), of n]
    by (simp add: Let_def sizes_def flip: g_def)
  have facts: "length sizes = nat g" "sum_list sizes = n" "\<forall>s \<in> set sizes. 1 \<le> s"
    "\<forall>a \<in> set sizes. \<forall>b \<in> set sizes. a - b \<le> 1"
    unfolding sizes_def by (rule group_sizes_facts [OF g])+
  have shape: "sizes = replicate (nat (n - n div g * g)) (n div g + 1) @
                       replicate (nat g - nat (n - n div g * g)) (n div g)"
    unfolding rem sizes_def ..
  have len: "length sizes < 2 ^ 32"
    using facts(1) lt by simp
  have g1: "1 \<le> g"
    using g(1) by simp
  show ?thesis
    unfolding Let_def g_def [symmetric] base
    using res g1 g(2) facts(1) len shape facts(2,3,4) by blast
qed

theorem computeGroupSizes_shape_witness:
  "(2::int) \<le> 7 \<and> (7::int) < 2 ^ 32 \<and> (2::rat) \<le> 3 \<and>
   computeGroupSizes 7 (Fin 3) = Inr [4, 3] \<and>
   computeGroupSizes 8 (Fin (3602879701896397 / 1125899906842624)) = Inr [3, 3, 2] \<and>
   (\<exists>sizes. computeGroupSizes 7 (Fin 3) = Inr sizes \<and>
      (let g = max 1 (math_round (fl (of_int 7 / 3)));
           base = \<lfloor>fl (of_int 7 / of_int g)\<rfloor>
       in 1 \<le> g \<and> g \<le> 7 \<and> base = 7 div g \<and>
          length sizes = nat g \<and> length sizes < 2 ^ 32 \<and>
          sizes = replicate (nat (7 - base * g)) (base + 1) @
                  replicate (nat g - nat (7 - base * g)) base \<and>
          sum_list sizes = 7 \<and>
          (\<forall>s \<in> set sizes. 1 \<le> s) \<and>
          (\<forall>a \<in> set sizes. \<forall>b \<in> set sizes. a - b \<le> 1)))"
proof -
  have v: "computeGroupSizes 7 (Fin 3) = Inr [4, 3]"
    by code_simp
  have w: "computeGroupSizes 8 (Fin (3602879701896397 / 1125899906842624)) = Inr [3, 3, 2]"
    by code_simp
  have h: "(2::int) \<le> 7" "(7::int) < 2 ^ 32" "(2::rat) \<le> 3"
    by simp_all
  show ?thesis
    using computeGroupSizes_shape [OF h] v w h by blast
qed

text \<open>
  C7: \<open>computeGroupSizes\<close> throws the error \<open>Group Size must be at least 2\<close> exactly when
  the desired size is not a finite number or is below \<open>2\<close>; for a roster size \<open>n \<ge> 2\<close>
  (the length of an array, so below \<open>2^32\<close>) it throws nothing else, and returns a list
  of sizes, short enough for \<open>Array.from\<close> to build it, exactly when the desired size is
  finite and at least \<open>2\<close>.
\<close>

theorem computeGroupSizes_fails_iff:
  "(computeGroupSizes n d = Inl InvalidConfiguration) = (\<not> isFinite d \<or> jlt d (Fin 2)) \<and>
   (2 \<le> n \<and> n < 2 ^ 32 \<longrightarrow>
      (\<exists>sizes. computeGroupSizes n d = Inr sizes \<and> length sizes < 2 ^ 32)
        = (isFinite d \<and> \<not> jlt d (Fin 2)) \<and>
      (\<forall>e. computeGroupSizes n d = Inl e \<longrightarrow> e = InvalidConfiguration))"
proof (cases d)
  case (Fin x)
  show ?thesis
  proof (cases "x < 2")
    case True
    then show ?thesis
      using Fin by (simp add: computeGroupSizes_def)
  next
    case False
    then have x2: "2 \<le> x" by simp
    have noerr: "computeGroupSizes n d \<noteq> Inl e" for e
      using Fin False by (simp add: computeGroupSizes_def Let_def)
    have ret: "\<exists>sizes. computeGroupSizes n d = Inr sizes \<and> length sizes < 2 ^ 32"
      if n: "2 \<le> n" "n < 2 ^ 32"
    proof -
      define g where "g = max 1 (math_round (fl (of_int n / x)))"
      have g: "0 < g" "g \<le> n"
        using group_count_le [OF n(1) x2] by (simp_all add: g_def)
      have lt: "nat g < 2 ^ 32"
        using g n(2) by (simp add: nat_less_iff)
      show ?thesis
        using computeGroupSizes_finite [OF x2, of n] group_sizes_facts(1) [OF g] lt
        by (simp add: Fin Let_def flip: g_def)
    qed
    show ?thesis
      using Fin False noerr ret by simp
  qed
qed (simp_all add: computeGroupSizes_def)

theorem computeGroupSizes_fails_iff_witness:
  "(2::int) \<le> 5 \<and> (5::int) < 2 ^ 32 \<and>
   computeGroupSizes 5 (Fin 1) = Inl InvalidConfiguration \<and>
   computeGroupSizes 5 NaN = Inl InvalidConfiguration \<and>
   computeGroupSizes 5 PosInf = Inl InvalidConfiguration \<and>
   (\<exists>sizes. computeGroupSizes 5 (Fin 2) = Inr sizes \<and> length sizes < 2 ^ 32)"
  using computeGroupSizes_fails_iff [of 5 "Fin 1"] computeGroupSizes_fails_iff [of 5 NaN]
    computeGroupSizes_fails_iff [of 5 PosInf] computeGroupSizes_fails_iff [of 5 "Fin 2"]
  by simp

text \<open>
  C10: the number of groups is rounded with \<open>Math.round\<close>, which rounds a tie upwards:
  for \<open>n = 5\<close> and a desired size of \<open>2\<close> there are \<open>round(2.5) = 3\<close> groups, of sizes
  \<open>[2, 2, 1]\<close>.
\<close>

theorem computeGroupSizes_half_up:
  "math_round (of_int k + 1 / 2) = k + 1 \<and> math_round (5 / 2) = 3 \<and>
   computeGroupSizes 5 (Fin 2) = Inr [2, 2, 1]"
proof -
  have "math_round (of_int k + 1 / 2) = k + 1"
    by (simp add: math_round_def)
  moreover have "math_round (5 / 2) = 3"
    by code_simp
  moreover have "computeGroupSizes 5 (Fin 2) = Inr [2, 2, 1]"
    by code_simp
  ultimately show ?thesis by simp
qed

section \<open>Facts about the role targets\<close>

subsection \<open>Numbers\<close>

lemma of_i_simps [simp]:
  "jadd (of_i a) (of_i b) = of_i (a + b)"
  "jsub (of_i a) (of_i b) = of_i (a - b)"
  "jmul (of_i a) (of_i b) = of_i (a * b)"
  "jlt (of_i a) (of_i b) = (a < b)"
  "jgt (of_i a) (of_i b) = (b < a)"
  "jle (of_i a) (of_i b) = (a \<le> b)"
  "jeq (of_i a) (of_i b) = (a = b)"
  "jfloor (of_i a) = of_i a"
  "isFinite (of_i a)"
  "(of_i a = of_i b) = (a = b)"
  by (auto simp: of_i_def jsub_def jgt_def jle_def)

lemma Fin_of_i [simp]: "Fin 0 = of_i 0" "Fin 1 = of_i 1" "Fin (- 1) = of_i (- 1)"
  by (simp_all add: of_i_def)

lemma jsum_of_i [simp]: "jsum (map of_i xs) = of_i (sum_list xs)"
proof -
  have "foldl jadd (of_i a) (map of_i xs) = of_i (a + sum_list xs)" for a
    by (induction xs arbitrary: a) (simp_all add: add.assoc)
  from this [of 0] show ?thesis by (simp add: jsum_def)
qed

lemma foldl_jadd_of_i:
  "foldl (\<lambda>acc r. jadd acc (of_i (f r))) (of_i a) rs = of_i (a + sum_list (map f rs))"
  by (induction rs arbitrary: a) (simp_all add: add.assoc)

subsection \<open>Agreement with double precision\<close>

text \<open>
  On integers that stay within \<open>2^53\<close> the exact sum, difference and product of the
  model are the rounded ones of the program, and the floor of a quota is the floor of
  the rounded quotient of the rounded product.
\<close>

lemma of_i_double:
  "\<bar>a + b\<bar> \<le> 2 ^ 53 \<Longrightarrow> jadd (of_i a) (of_i b) = Fin (fl (of_int a + of_int b))"
  "\<bar>a - b\<bar> \<le> 2 ^ 53 \<Longrightarrow> jsub (of_i a) (of_i b) = Fin (fl (of_int a - of_int b))"
  "\<bar>a * b\<bar> \<le> 2 ^ 53 \<Longrightarrow> jmul (of_i a) (of_i b) = Fin (fl (of_int a * of_int b))"
  using fl_of_int [of "a + b"] fl_of_int [of "a - b"] fl_of_int [of "a * b"]
  by (simp_all add: of_i_def jsub_def)

lemma elem_le_sum_list:
  fixes xs :: "int list"
  assumes "\<forall>s \<in> set xs. 0 \<le> s" and "x \<in> set xs"
  shows "x \<le> sum_list xs"
  using assms
proof (induction xs)
  case Nil
  then show ?case by simp
next
  case (Cons y ys)
  have nn: "0 \<le> sum_list ys"
    using Cons.prems(1) by (intro sum_list_nonneg) simp
  show ?case
  proof (cases "x = y")
    case True
    then show ?thesis using nn by simp
  next
    case False
    then have "x \<le> sum_list ys"
      using Cons by simp
    then show ?thesis using Cons.prems(1) by simp
  qed
qed

text \<open>The quota of a group and a role as the program computes it, the rounded quotient
  of the rounded product, has the floor of the exact quota.\<close>

lemma quota_double:
  assumes "0 \<le> s" and "0 \<le> t" and "s * t < 2 ^ 53" and "0 < n"
  shows "\<lfloor>fl (fl (of_int s * of_int t) / of_int n)\<rfloor> = (s * t) div n"
proof -
  have p: "0 \<le> s * t"
    using assms(1,2) by simp
  have "fl (of_int s * of_int t) = of_int (s * t)"
    using fl_of_int [of "s * t"] p assms(3) by simp
  then show ?thesis
    using floor_fl_div [OF p assms(3,4)] by simp
qed

lemma quota_floor_double:
  assumes "0 \<le> s" and "0 \<le> t" and "s * t < 2 ^ 53" and "0 < n"
  shows "jfloor (jdiv (jmul (of_i s) (of_i t)) (of_i n))
           = of_i \<lfloor>fl (fl (of_int s * of_int t) / of_int n)\<rfloor>"
proof -
  have "jfloor (jdiv (jmul (of_i s) (of_i t)) (of_i n)) = of_i ((s * t) div n)"
    using assms(4) by (simp add: of_i_def floor_divide_of_int_eq flip: of_int_mult)
  then show ?thesis
    by (simp only: quota_double [OF assms])
qed

text \<open>With capacities and counts that sum to less than \<open>2^26\<close>, every product of a
  capacity and a count is below \<open>2^53\<close>.\<close>

lemma quota_in_range:
  fixes sizes :: "int list"
  assumes "\<forall>s \<in> set sizes. 0 \<le> s" and "\<forall>c \<in> snd ` set countsByRole. 0 \<le> c"
    and "sum_list sizes < 2 ^ 26" and "sum_list (map snd countsByRole) < 2 ^ 26"
    and "i < length sizes" and "(r, c) \<in> set countsByRole"
  shows "0 \<le> sizes ! i" and "0 \<le> c" and "sizes ! i * c < 2 ^ 53"
proof -
  show s0: "0 \<le> sizes ! i" using assms(1,5) by simp
  show c0: "0 \<le> c" using assms(2,6) by force
  have "sizes ! i \<le> sum_list sizes"
    using assms(1,5) by (intro elem_le_sum_list) simp_all
  then have s: "sizes ! i \<le> 2 ^ 26" using assms(3) by simp
  have "c \<in> set (map snd countsByRole)" using assms(6) by force
  moreover have "\<forall>s \<in> set (map snd countsByRole). 0 \<le> s" using assms(2) by simp
  ultimately have "c \<le> sum_list (map snd countsByRole)"
    by (intro elem_le_sum_list)
  then have c: "c \<le> 2 ^ 26" using assms(4) by simp
  have "sizes ! i * c \<le> 2 ^ 26 * 2 ^ 26"
    using s c s0 c0 by (intro mult_mono) simp_all
  then show "sizes ! i * c < 2 ^ 53" by simp
qed

subsection \<open>Shuffle\<close>

lemma random_index_le: "random_index u i \<le> i"
proof -
  have "unat u < 2 ^ 53"
    using unsigned_less [of u] by simp
  then have "unat u * (i + 1) < (i + 1) * 2 ^ 53"
    by (subst mult.commute) (rule mult_strict_left_mono, simp_all)
  then have "unat u * (i + 1) div 2 ^ 53 < i + 1"
    by (rule less_mult_imp_div_less)
  then show ?thesis by (simp add: random_index_def)
qed

lemma mset_shuffle_from:
  "i < length arr \<or> i = 0 \<Longrightarrow> mset (fst (shuffle_from i rnd arr)) = mset arr"
proof (induction i arbitrary: rnd arr)
  case 0
  then show ?case by simp
next
  case (Suc i)
  let ?j = "random_index (rnd 0) (Suc i)"
  have i: "Suc i < length arr" using Suc.prems by simp
  have j: "?j < length arr" using random_index_le [of "rnd 0" "Suc i"] i by simp
  have "mset (arr[Suc i := arr ! ?j, ?j := arr ! Suc i]) = mset arr"
    using i j by (simp add: mset_swap)
  moreover have "i < length (arr[Suc i := arr ! ?j, ?j := arr ! Suc i]) \<or> i = 0"
    using i by simp
  ultimately show ?case
    using Suc.IH [of "arr[Suc i := arr ! ?j, ?j := arr ! Suc i]" "\<lambda>k. rnd (Suc k)"]
    by (simp add: Let_def)
qed

lemma mset_shuffleInPlace [simp]: "mset (fst (shuffleInPlace rnd arr)) = mset arr"
  unfolding shuffleInPlace_def by (rule mset_shuffle_from) (cases arr, auto)

lemma set_shuffleInPlace [simp]: "set (fst (shuffleInPlace rnd arr)) = set arr"
  by (metis mset_shuffleInPlace set_mset_mset)

lemma length_shuffleInPlace [simp]: "length (fst (shuffleInPlace rnd arr)) = length arr"
  by (metis mset_shuffleInPlace size_mset)

subsection \<open>Keys\<close>

lemma mset_object_keys [simp]: "mset (object_keys obj) = mset (map fst obj)"
  by (simp add: object_keys_def)

lemma set_object_keys [simp]: "set (object_keys obj) = fst ` set obj"
  by (metis mset_object_keys set_mset_mset set_map)

lemma distinct_object_keys [simp]: "distinct (object_keys obj) = distinct (map fst obj)"
  by (metis mset_object_keys mset_eq_imp_distinct_iff)

subsection \<open>Sorting\<close>

lemma mset_insert_pair [simp]: "mset (insert_pair a bs) = add_mset a (mset bs)"
  by (induction bs) simp_all

lemma mset_sort_pairs [simp]: "mset (sort_pairs ps) = mset ps"
  unfolding sort_pairs_def by (induction ps) simp_all

lemma set_sort_pairs [simp]: "set (sort_pairs ps) = set ps"
  by (metis mset_sort_pairs set_mset_mset)

subsection \<open>The floors and the largest-remainders pass on integers\<close>

lemma count_of_total:
  "r \<in> fst ` set countsByRole \<Longrightarrow> count_of countsByRole r = of_i (total_of countsByRole r)"
  by (auto simp: count_of_def total_of_def map_of_eq_None_iff split: option.splits)

lemma quota_floor:
  "n \<noteq> 0 \<Longrightarrow> jfloor (jdiv (of_i x) (of_i n)) = of_i (x div n)"
  by (simp add: of_i_def floor_divide_of_int_eq)

lemma fold_floor_role:
  fixes c :: "string \<Rightarrow> jsnum" and sizes :: "int list" and n :: jsnum
    and roles :: "string list" and st :: rt_state
  defines "qs \<equiv> \<lambda>r. map (\<lambda>s. jdiv (jmul (of_i s) (c r)) n) sizes"
  defines "st' \<equiv> fold (\<lambda>r. floor_role sizes n (c r) r) roles st"
  shows "targets st' x = (if x \<in> set roles then map jfloor (qs x) else targets st x)"
    and "remainders st' x =
           (if x \<in> set roles then map (\<lambda>q. jsub q (jfloor q)) (qs x) else remainders st x)"
    and "extras st' x =
           (if x \<in> set roles then jsub (c x) (jsum (map jfloor (qs x))) else extras st x)"
    and "deficits st' = deficits st"
  unfolding st'_def qs_def
  by (induction roles arbitrary: st) (simp_all add: floor_role_def Let_def)

lemma foldl_jadd_int:
  "\<forall>r \<in> set rs. f r = of_i (h r) \<Longrightarrow>
   foldl (\<lambda>acc r. jadd acc (f r)) (of_i a) rs = of_i (a + sum_list (map h rs))"
  by (induction rs arbitrary: a) (simp_all add: add.assoc)

lemma rel_floors:
  assumes "sum_list sizes \<noteq> 0 \<or> countsByRole = []"
  shows "rel (object_keys countsByRole) (length sizes)
           (floors_state sizes countsByRole) (ifloors sizes countsByRole)"
proof -
  define roles where "roles = object_keys countsByRole"
  define n where "n = sum_list sizes"
  define T where "T = total_of countsByRole"
  define st where
    "st = fold (\<lambda>r. floor_role sizes (of_i n) (count_of countsByRole r) r) roles
            (init_state (length sizes))"
  have fs: "floors_state sizes countsByRole = st\<lparr>deficits := group_deficits sizes roles st\<rparr>"
    by (simp add: floors_state_def Let_def st_def roles_def n_def)
  have n0: "n \<noteq> 0" if "r \<in> set roles" for r
    using assms that by (auto simp: roles_def n_def)
  have cnt: "count_of countsByRole r = of_i (T r)" if "r \<in> set roles" for r
    using that by (simp add: roles_def T_def count_of_total)
  have tg: "targets st r = map (\<lambda>i. of_i ((sizes ! i * T r) div n)) [0..<length sizes]"
    if "r \<in> set roles" for r
    using that n0 [OF that] cnt [OF that]
    by (auto simp: st_def fold_floor_role quota_floor intro!: nth_equalityI)
  have ex: "extras st r = of_i (T r - (\<Sum>i<length sizes. (sizes ! i * T r) div n))"
    if "r \<in> set roles" for r
  proof -
    have "map jfloor (map (\<lambda>s. jdiv (jmul (of_i s) (of_i (T r))) (of_i n)) sizes)
            = map of_i (map (\<lambda>s. (s * T r) div n) sizes)"
      using n0 [OF that] by (simp add: quota_floor)
    moreover have "sum_list (map (\<lambda>s. (s * T r) div n) sizes)
                     = (\<Sum>i<length sizes. (sizes ! i * T r) div n)"
      by (simp add: sum_list_sum_nth atLeast0LessThan)
    ultimately show ?thesis
      using that cnt [OF that] by (simp add: st_def fold_floor_role del: map_map)
  qed
  have df: "group_deficits sizes roles st
              = map (\<lambda>i. of_i (sizes ! i - (\<Sum>r\<leftarrow>roles. (sizes ! i * T r) div n)))
                  [0..<length sizes]"
    unfolding group_deficits_def
  proof (rule map_cong [OF refl])
    fix i assume "i \<in> set [0..<length sizes]"
    then have i: "i < length sizes" by simp
    have "\<forall>r \<in> set roles. targets st r ! i = of_i ((sizes ! i * T r) div n)"
      using i by (simp add: tg)
    from foldl_jadd_int [OF this, of 0]
    show "jsub (of_i (sizes ! i)) (foldl (\<lambda>acc r. jadd acc (targets st r ! i)) (Fin 0) roles)
            = of_i (sizes ! i - (\<Sum>r\<leftarrow>roles. (sizes ! i * T r) div n))"
      by simp
  qed
  show ?thesis
    unfolding rel_def ifloors_def Let_def fs
    by (simp add: tg ex df flip: roles_def n_def T_def)
qed

lemma map_upt_update:
  "i < g \<Longrightarrow> (map f [0..<g])[i := v] = map (f(i := v)) [0..<g]"
  by (rule nth_equalityI) (auto simp: nth_list_update)

lemma rel_greedy_step:
  assumes "rel roles g st s" and "r \<in> set roles" and "i < g"
  shows "rel roles g (greedy_step (i, r, x) st) (istep (i, r, x) s)"
proof -
  obtain tg ex df where s: "s = (tg, ex, df)" by (cases s)
  have t: "\<And>q. q \<in> set roles \<Longrightarrow> targets st q = map (\<lambda>i. of_i (tg q i)) [0..<g]"
    and e: "\<And>q. q \<in> set roles \<Longrightarrow> extras st q = of_i (ex q)"
    and d: "deficits st = map (\<lambda>i. of_i (df i)) [0..<g]"
    using assms(1) by (simp_all add: rel_def s)
  show ?thesis
    using assms(2,3) assms(1)
    by (auto simp: rel_def s greedy_step_def istep_def bump_def t e d map_upt_update)
qed

lemma istep_alt:
  "istep (i, r, x) (tg, ex, df) =
     (if ex r \<le> 0 \<or> df i \<le> 0 then (tg, ex, df) else ibump r i (tg, ex, df))"
  by (simp add: istep_def ibump_def)

lemma sum_upd_one:
  fixes f :: "'a \<Rightarrow> int"
  assumes "finite A" and "a \<in> A"
  shows "(\<Sum>x \<in> A. if x = a then f x + 1 else f x) = sum f A + 1"
proof -
  have "(\<Sum>x \<in> A. if x = a then f x + 1 else f x) = (\<Sum>x \<in> A. f x + (if x = a then 1 else 0))"
    by (rule sum.cong) auto
  also have "\<dots> = sum f A + (\<Sum>x \<in> A. if x = a then 1 else 0)"
    by (simp add: sum.distrib)
  also have "(\<Sum>x \<in> A. if x = a then 1 else 0) = (1::int)"
    using assms by simp
  finally show ?thesis .
qed

lemma rel_bump:
  assumes "rel roles g st s" and "r \<in> set roles" and "i < g"
  shows "rel roles g (bump r i st) (ibump r i s)"
proof -
  obtain tg ex df where s: "s = (tg, ex, df)" by (cases s)
  have t: "\<And>q. q \<in> set roles \<Longrightarrow> targets st q = map (\<lambda>i. of_i (tg q i)) [0..<g]"
    and e: "\<And>q. q \<in> set roles \<Longrightarrow> extras st q = of_i (ex q)"
    and d: "deficits st = map (\<lambda>i. of_i (df i)) [0..<g]"
    using assms(1) by (simp_all add: rel_def s)
  show ?thesis
    using assms(2,3)
    by (auto simp: rel_def s ibump_def bump_def t e d map_upt_update)
qed

lemma inv_bump:
  assumes "inv R g T S s0 (tg, ex, df)" and "finite R" and "r \<in> R" and "i < g"
    and "0 < ex r" and "0 < df i"
  shows "inv R g T S s0 (ibump r i (tg, ex, df))"
proof -
  obtain tg0 ex0 df0 where s0: "s0 = (tg0, ex0, df0)" by (cases s0)
  have col: "(\<Sum>k<g. (if k = i then tg r k + 1 else tg r k)) = (\<Sum>k<g. tg r k) + 1"
    using assms(4) by (intro sum_upd_one) auto
  have row: "(\<Sum>q \<in> R. (if q = r then tg q i + 1 else tg q i)) = (\<Sum>q \<in> R. tg q i) + 1"
    using assms(2,3) by (intro sum_upd_one) auto
  have col': "(\<Sum>k<g. ((tg r)(i := tg r i + 1)) k) = (\<Sum>k<g. tg r k) + 1"
    using col by (simp add: fun_upd_def if_distrib cong: if_cong)
  have row': "(\<Sum>q \<in> R. (tg(r := (tg r)(i := tg r i + 1))) q i) = (\<Sum>q \<in> R. tg q i) + 1"
  proof -
    have "(\<Sum>q \<in> R. (tg(r := (tg r)(i := tg r i + 1))) q i)
            = (\<Sum>q \<in> R. (if q = r then tg q i + 1 else tg q i))"
      by (rule sum.cong) auto
    then show ?thesis using row by simp
  qed
  have row_other: "(\<Sum>q \<in> R. (tg(r := (tg r)(i := tg r i + 1))) q k) = (\<Sum>q \<in> R. tg q k)"
    if "k \<noteq> i" for k
    by (rule sum.cong) (use that in auto)
  have "tg0 r i \<le> tg r i"
    using assms(1,3,4) by (auto simp: inv_def s0)
  then have lo: "tg0 r i \<le> tg r i + 1" by simp
  have dlo: "min 0 (df0 i) \<le> df i - 1"
    using assms(6) by simp
  show ?thesis
    using assms(1,3,4,5,6) col' row' row_other lo dlo
    by (auto simp: inv_def s0 ibump_def)
qed

lemma rel_inv_fold_greedy:
  assumes "rel roles g st s" and "inv (set roles) g T S s0 s"
    and "\<forall>(i, r, x) \<in> set ps. i < g \<and> r \<in> set roles"
  shows "rel roles g (fold greedy_step ps st) (fold istep ps s) \<and>
         inv (set roles) g T S s0 (fold istep ps s) \<and>
         remainders (fold greedy_step ps st) = remainders st"
  using assms
proof (induction ps arbitrary: st s)
  case Nil
  then show ?case by simp
next
  case (Cons p ps)
  obtain i r x where p: "p = (i, r, x)" by (cases p)
  obtain tg ex df where s: "s = (tg, ex, df)" by (cases s)
  have v: "i < g" "r \<in> set roles"
    using Cons.prems(3) by (simp_all add: p)
  have 1: "rel roles g (greedy_step p st) (istep p s)"
    using rel_greedy_step [OF Cons.prems(1) v(2,1)] by (simp add: p)
  have 2: "inv (set roles) g T S s0 (istep p s)"
    using Cons.prems(2) inv_bump [of "set roles" g T S s0 tg ex df r i] v
    by (auto simp: p s istep_alt)
  have 3: "remainders (greedy_step p st) = remainders st"
    by (simp add: p greedy_step_def bump_def)
  show ?case
    using Cons.IH [OF 1 2] Cons.prems(3) 3 by simp
qed

lemma jgt_Fin_of_i [simp]: "jgt (Fin q) (of_i k) = (of_int k < q)"
  by (simp add: of_i_def jgt_def)

lemma foldl_best:
  assumes "\<forall>r \<in> set rs. extras st r = of_i (ex r)"
    and "\<forall>r \<in> set rs. \<exists>q. remainders st r ! i = Fin q \<and> 0 \<le> q"
    and "fst acc = None \<longrightarrow> fst (snd acc) = Fin (- 1)"
  shows "(fst (foldl (best_step st i) acc rs) = None) = (fst acc = None \<and> (\<forall>r \<in> set rs. ex r \<le> 0))
         \<and> (\<forall>r. fst (foldl (best_step st i) acc rs) = Some r \<longrightarrow>
                fst acc = Some r \<or> (r \<in> set rs \<and> 0 < ex r))"
  using assms
proof (induction rs arbitrary: acc)
  case Nil
  then show ?case by simp
next
  case (Cons r rs)
  obtain b bRem bEx where acc: "acc = (b, bRem, bEx)" by (cases acc)
  obtain q where q: "remainders st r ! i = Fin q" "0 \<le> q"
    using Cons.prems(2) by auto
  have e: "extras st r = of_i (ex r)"
    using Cons.prems(1) by simp
  let ?acc' = "best_step st i acc r"
  have up: "?acc' = acc \<or> (fst ?acc' = Some r \<and> 0 < ex r)"
    by (auto simp: best_step_def acc e Let_def)
  have keep: "?acc' = acc \<Longrightarrow> fst acc = None \<Longrightarrow> ex r \<le> 0"
    using Cons.prems(3) q by (auto simp: best_step_def acc e Let_def split: if_splits)
  have ok: "fst ?acc' = None \<longrightarrow> fst (snd ?acc') = Fin (- 1)"
    using up Cons.prems(3) by auto
  have IH: "(fst (foldl (best_step st i) ?acc' rs) = None)
              = (fst ?acc' = None \<and> (\<forall>r \<in> set rs. ex r \<le> 0))
            \<and> (\<forall>x. fst (foldl (best_step st i) ?acc' rs) = Some x \<longrightarrow>
                   fst ?acc' = Some x \<or> (x \<in> set rs \<and> 0 < ex x))"
    using Cons.IH [of ?acc'] Cons.prems(1,2) ok by simp
  show ?case
  proof (intro conjI allI impI)
    show "(fst (foldl (best_step st i) acc (r # rs)) = None)
            = (fst acc = None \<and> (\<forall>r \<in> set (r # rs). ex r \<le> 0))"
    proof (cases "?acc' = acc")
      case True
      then show ?thesis using IH keep up by auto
    next
      case False
      then have "fst ?acc' = Some r" "0 < ex r" using up by auto
      then show ?thesis using IH by auto
    qed
  next
    fix x assume "fst (foldl (best_step st i) acc (r # rs)) = Some x"
    then have "fst ?acc' = Some x \<or> (x \<in> set rs \<and> 0 < ex x)"
      using IH by simp
    then show "fst acc = Some x \<or> (x \<in> set (r # rs) \<and> 0 < ex x)"
      using up by auto
  qed
qed

lemma find_best_cases:
  assumes "rel roles g st (tg, ex, df)" and "rems_ok roles g (remainders st)" and "i < g"
  shows "(find_best roles st i = None) = (\<forall>r \<in> set roles. ex r \<le> 0)"
    and "find_best roles st i = Some r \<Longrightarrow> r \<in> set roles \<and> 0 < ex r"
proof -
  have 1: "\<forall>r \<in> set roles. extras st r = of_i (ex r)"
    using assms(1) by (simp add: rel_def)
  have 2: "\<forall>r \<in> set roles. \<exists>q. remainders st r ! i = Fin q \<and> 0 \<le> q"
    using assms(2,3) by (simp add: rems_ok_def)
  note fb = foldl_best [OF 1 2, of "(None, Fin (- 1), Fin (- 1))"]
  show "(find_best roles st i = None) = (\<forall>r \<in> set roles. ex r \<le> 0)"
    using fb by (simp add: find_best_def del: Fin_of_i)
  show "find_best roles st i = Some r \<Longrightarrow> r \<in> set roles \<and> 0 < ex r"
    using fb by (simp add: find_best_def del: Fin_of_i)
qed

lemma rel_deficit: "rel roles g st (tg, ex, df) \<Longrightarrow> i < g \<Longrightarrow> deficits st ! i = of_i (df i)"
  by (simp add: rel_def)

lemma falsy_simps [simp]: "falsy None" "falsy (Some r) = (r = [])"
  by (simp_all add: falsy_def)

lemma fill_group_returns:
  assumes "rel roles g st (tg, ex, df)" and "inv (set roles) g T S s0 (tg, ex, df)"
    and "rems_ok roles g (remainders st)" and "i < g" and "[] \<notin> set roles"
  shows "\<exists>st' tg' ex' df'.
           fill_group roles i (st, of_i rd) = Some (st', of_i (rd - (df i - df' i))) \<and>
           rel roles g st' (tg', ex', df') \<and> inv (set roles) g T S s0 (tg', ex', df') \<and>
           remainders st' = remainders st \<and>
           (df' i \<le> 0 \<or> (\<forall>r \<in> set roles. ex' r \<le> 0)) \<and>
           (\<forall>k. k \<noteq> i \<longrightarrow> df' k = df k) \<and> (\<forall>r. ex' r \<le> ex r)"
  using assms(1,2,3)
proof (induction "nat (df i)" arbitrary: st tg ex df rd rule: less_induct)
  case less
  note rl = less.prems(1) and iv = less.prems(2) and rm = less.prems(3)
  have d: "deficits st ! i = of_i (df i)"
    using rel_deficit [OF rl assms(4)] .
  show ?case
  proof (cases "0 < df i")
    case False
    then have "fill_group roles i (st, of_i rd) = Some (st, of_i (rd - (df i - df i)))"
      by (subst fill_group.simps) (simp add: d)
    then show ?thesis
      using rl iv False by (intro exI [of _ st] exI [of _ tg] exI [of _ ex] exI [of _ df]) simp
  next
    case True
    show ?thesis
    proof (cases "find_best roles st i")
      case None
      then have none: "\<forall>r \<in> set roles. ex r \<le> 0"
        using find_best_cases(1) [OF rl rm assms(4)] by simp
      have "fill_group roles i (st, of_i rd) = Some (st, of_i (rd - (df i - df i)))"
        by (subst fill_group.simps) (simp add: d None)
      then show ?thesis
        using rl iv none by (intro exI [of _ st] exI [of _ tg] exI [of _ ex] exI [of _ df]) simp
    next
      case (Some r)
      then have r: "r \<in> set roles" "0 < ex r"
        using find_best_cases(2) [OF rl rm assms(4)] by simp_all
      then have ne: "r \<noteq> []" using assms(5) by auto
      let ?df = "df(i := df i - 1)"
      let ?ex = "ex(r := ex r - 1)"
      let ?tg = "tg(r := (tg r)(i := tg r i + 1))"
      have ib: "ibump r i (tg, ex, df) = (?tg, ?ex, ?df)"
        by (simp add: ibump_def)
      have rl': "rel roles g (bump r i st) (?tg, ?ex, ?df)"
        using rel_bump [OF rl r(1) assms(4)] by (simp add: ib)
      have iv': "inv (set roles) g T S s0 (?tg, ?ex, ?df)"
        using inv_bump [OF iv _ r(1) assms(4) r(2) True] by (simp add: ib)
      have rm': "rems_ok roles g (remainders (bump r i st))"
        using rm by (simp add: bump_def)
      have m: "nat (?df i) < nat (df i)"
        using True by simp
      from less.hyps [OF m rl' iv' rm', of "rd - 1"]
      obtain st' tg' ex' df' where
        fg: "fill_group roles i (bump r i st, of_i (rd - 1)) = Some (st', of_i (rd - 1 - (?df i - df' i)))"
        and post: "rel roles g st' (tg', ex', df')" "inv (set roles) g T S s0 (tg', ex', df')"
          "remainders st' = remainders (bump r i st)"
          "df' i \<le> 0 \<or> (\<forall>r \<in> set roles. ex' r \<le> 0)"
          "\<forall>k. k \<noteq> i \<longrightarrow> df' k = ?df k" "\<forall>q. ex' q \<le> ?ex q"
        by blast
      have "fill_group roles i (st, of_i rd) = fill_group roles i (bump r i st, of_i (rd - 1))"
        by (subst fill_group.simps) (simp add: d True Some ne)
      then have 1: "fill_group roles i (st, of_i rd) = Some (st', of_i (rd - (df i - df' i)))"
        using fg by (simp add: algebra_simps)
      have 2: "remainders st' = remainders st"
        using post(3) by (simp add: bump_def)
      have 3: "\<forall>k. k \<noteq> i \<longrightarrow> df' k = df k"
        using post(5) by simp
      have 4: "\<forall>q. ex' q \<le> ex q"
      proof
        fix q show "ex' q \<le> ex q"
          using post(6) [rule_format, of q] by (cases "q = r") simp_all
      qed
      show ?thesis
        using 1 post(1,2,4) 2 3 4 by blast
    qed
  qed
qed

lemma sum_change_one:
  fixes f f' :: "nat \<Rightarrow> int"
  assumes "i < g" and "\<forall>k. k \<noteq> i \<longrightarrow> f' k = f k"
  shows "(\<Sum>k<g. f' k) = (\<Sum>k<g. f k) - (f i - f' i)"
proof -
  have "(\<Sum>k<g. f' k) = f' i + (\<Sum>k \<in> {..<g} - {i}. f' k)"
    using assms(1) by (intro sum.remove) auto
  moreover have "(\<Sum>k<g. f k) = f i + (\<Sum>k \<in> {..<g} - {i}. f k)"
    using assms(1) by (intro sum.remove) auto
  moreover have "(\<Sum>k \<in> {..<g} - {i}. f' k) = (\<Sum>k \<in> {..<g} - {i}. f k)"
    using assms(2) by (intro sum.cong) auto
  ultimately show ?thesis by simp
qed

lemma fill_groups_returns:
  assumes "rel roles g st (tg, ex, df)" and "inv (set roles) g T S s0 (tg, ex, df)"
    and "rems_ok roles g (remainders st)" and "[] \<notin> set roles" and "i \<le> g"
    and "(\<forall>k<i. df k \<le> 0) \<or> (\<forall>r \<in> set roles. ex r \<le> 0)"
  shows "\<exists>st' rd' tg' ex' df'.
           fill_groups roles g i (st, of_i (\<Sum>k<g. df k)) = Some (st', rd') \<and>
           rel roles g st' (tg', ex', df') \<and> inv (set roles) g T S s0 (tg', ex', df') \<and>
           ((\<Sum>k<g. df' k) \<le> 0 \<or> (\<forall>r \<in> set roles. ex' r \<le> 0))"
  using assms(1,2,3,5,6)
proof (induction "g - i" arbitrary: i st tg ex df rule: less_induct)
  case less
  note rl = less.prems(1) and iv = less.prems(2) and rm = less.prems(3)
    and ig = less.prems(4) and pre = less.prems(5)
  show ?case
  proof (cases "i < g \<and> 0 < (\<Sum>k<g. df k)")
    case False
    then have "fill_groups roles g i (st, of_i (\<Sum>k<g. df k)) = Some (st, of_i (\<Sum>k<g. df k))"
      by (subst fill_groups.simps) auto
    moreover have "(\<Sum>k<g. df k) \<le> 0 \<or> (\<forall>r \<in> set roles. ex r \<le> 0)"
    proof (cases "i < g")
      case True
      then show ?thesis using False by simp
    next
      case False
      then have "i = g" using ig by simp
      then show ?thesis using pre by (auto intro: sum_nonpos)
    qed
    ultimately show ?thesis
      using rl iv by blast
  next
    case True
    then have i: "i < g" and pos: "0 < (\<Sum>k<g. df k)" by simp_all
    from fill_group_returns [OF rl iv rm i assms(4), of "\<Sum>k<g. df k"]
    obtain st1 tg1 ex1 df1 where
      fg: "fill_group roles i (st, of_i (\<Sum>k<g. df k))
             = Some (st1, of_i ((\<Sum>k<g. df k) - (df i - df1 i)))"
      and post: "rel roles g st1 (tg1, ex1, df1)" "inv (set roles) g T S s0 (tg1, ex1, df1)"
        "remainders st1 = remainders st"
        "df1 i \<le> 0 \<or> (\<forall>r \<in> set roles. ex1 r \<le> 0)"
        "\<forall>k. k \<noteq> i \<longrightarrow> df1 k = df k" "\<forall>r. ex1 r \<le> ex r"
      by blast
    have sum1: "(\<Sum>k<g. df k) - (df i - df1 i) = (\<Sum>k<g. df1 k)"
      using sum_change_one [OF i post(5)] by simp
    have pre1: "(\<forall>k<Suc i. df1 k \<le> 0) \<or> (\<forall>r \<in> set roles. ex1 r \<le> 0)"
    proof (cases "\<forall>r \<in> set roles. ex r \<le> 0")
      case True
      then have "\<forall>r \<in> set roles. ex1 r \<le> 0"
        using post(6) by (meson order_trans)
      then show ?thesis ..
    next
      case False
      then have old: "\<forall>k<i. df k \<le> 0" using pre by blast
      show ?thesis
      proof (cases "\<forall>r \<in> set roles. ex1 r \<le> 0")
        case True
        then show ?thesis ..
      next
        case False
        then have "df1 i \<le> 0" using post(4) by blast
        moreover have "\<forall>k<i. df1 k \<le> 0"
          using old post(5) by simp
        ultimately have "\<forall>k<Suc i. df1 k \<le> 0"
          by (simp add: less_Suc_eq)
        then show ?thesis ..
      qed
    qed
    have m: "g - Suc i < g - i" using i by simp
    have rm1: "rems_ok roles g (remainders st1)"
      using rm post(3) by simp
    have ig1: "Suc i \<le> g" using i by simp
    from less.hyps [OF m post(1,2) rm1 ig1 pre1]
    obtain st' rd' tg' ex' df' where
      rec: "fill_groups roles g (Suc i) (st1, of_i (\<Sum>k<g. df1 k)) = Some (st', rd')"
      and fin: "rel roles g st' (tg', ex', df')" "inv (set roles) g T S s0 (tg', ex', df')"
        "(\<Sum>k<g. df' k) \<le> 0 \<or> (\<forall>r \<in> set roles. ex' r \<le> 0)"
      by blast
    have "fill_groups roles g i (st, of_i (\<Sum>k<g. df k)) = Some (st', rd')"
      by (subst fill_groups.simps) (simp add: i pos fg sum1 rec)
    then show ?thesis
      using fin by blast
  qed
qed

lemma jsum_deficits:
  "rel roles g st (tg, ex, df) \<Longrightarrow> jsum (deficits st) = of_i (\<Sum>k<g. df k)"
proof -
  assume "rel roles g st (tg, ex, df)"
  then have "deficits st = map of_i (map df [0..<g])"
    by (simp add: rel_def)
  then have "jsum (deficits st) = of_i (sum_list (map df [0..<g]))"
    by (simp only: jsum_of_i)
  also have "sum_list (map df [0..<g]) = (\<Sum>k<g. df k)"
    by (simp add: interv_sum_list_conv_sum_set_nat atLeast0LessThan)
  finally show ?thesis .
qed

lemma total_extras:
  "rel roles g st (tg, ex, df) \<Longrightarrow>
   foldl (\<lambda>acc r. jadd acc (extras st r)) (of_i 0) roles = of_i (sum_list (map ex roles))"
  using foldl_jadd_int [of roles "extras st" ex 0] by (simp add: rel_def)

lemma sum_list_nonneg_zero:
  fixes f :: "'a \<Rightarrow> int"
  assumes "\<forall>x \<in> set xs. 0 \<le> f x"
  shows "(sum_list (map f xs) = 0) = (\<forall>x \<in> set xs. f x = 0)"
  using assms
proof (induction xs)
  case Nil
  then show ?case by simp
next
  case (Cons a xs)
  have "0 \<le> sum_list (map f xs)"
    using Cons.prems by (intro sum_list_nonneg) auto
  then show ?case
    using Cons by auto
qed

lemma residual_returns:
  assumes "rel roles g st (tg, ex, df)" and "inv (set roles) g T S s0 (tg, ex, df)"
    and "rems_ok roles g (remainders st)" and "[] \<notin> set roles"
  shows "\<exists>st' tg' ex' df'.
           residual roles g (st, jsum (deficits st)) = Some st' \<and>
           rel roles g st' (tg', ex', df') \<and> inv (set roles) g T S s0 (tg', ex', df') \<and>
           ((\<Sum>k<g. df' k) \<le> 0 \<or> (\<forall>r \<in> set roles. ex' r = 0))"
proof (cases "0 < (\<Sum>k<g. df k)")
  case False
  then have "residual roles g (st, jsum (deficits st)) = Some st"
    by (subst residual.simps) (simp add: jsum_deficits [OF assms(1)])
  then show ?thesis
    using assms(1,2) False by (intro exI [of _ st] exI [of _ tg] exI [of _ ex] exI [of _ df]) simp
next
  case True
  from fill_groups_returns [OF assms(1,2,3,4), of 0]
  obtain st' rd' tg' ex' df' where
    fg: "fill_groups roles g 0 (st, of_i (\<Sum>k<g. df k)) = Some (st', rd')"
    and post: "rel roles g st' (tg', ex', df')" "inv (set roles) g T S s0 (tg', ex', df')"
      "(\<Sum>k<g. df' k) \<le> 0 \<or> (\<forall>r \<in> set roles. ex' r \<le> 0)"
    by auto
  have nonneg: "\<forall>r \<in> set roles. 0 \<le> ex' r"
    using post(2) by (auto simp: inv_def split: prod.splits)
  have unfold: "residual roles g (st, jsum (deficits st)) =
                  (if sum_list (map ex' roles) = 0 then Some st'
                   else residual roles g (st', jsum (deficits st')))"
    by (subst residual.simps)
      (simp add: jsum_deficits [OF assms(1)] True fg total_extras [OF post(1)] Let_def)
  show ?thesis
  proof (cases "sum_list (map ex' roles) = 0")
    case True
    then have "\<forall>r \<in> set roles. ex' r = 0"
      using sum_list_nonneg_zero [OF nonneg] by simp
    then show ?thesis
      using unfold True post(1,2) by auto
  next
    case False
    then have "\<not> (\<forall>r \<in> set roles. ex' r = 0)"
      using sum_list_nonneg_zero [OF nonneg] by simp
    then have "\<not> (\<forall>r \<in> set roles. ex' r \<le> 0)"
      using nonneg by (meson order_antisym)
    then have le: "(\<Sum>k<g. df' k) \<le> 0"
      using post(3) by blast
    then have nle: "\<not> 0 < (\<Sum>k<g. df' k)"
      by simp
    have "residual roles g (st', jsum (deficits st')) = Some st'"
      by (subst residual.simps) (simp add: jsum_deficits [OF post(1)] nle)
    then show ?thesis
      using unfold False post(1,2) le by auto
  qed
qed

lemma floors_sum_le:
  fixes sizes :: "int list" and t :: int
  assumes "sum_list sizes \<noteq> 0"
  shows "(\<Sum>i<length sizes. (sizes ! i * t) div sum_list sizes) \<le> t"
proof -
  let ?n = "sum_list sizes"
  have "(of_int (\<Sum>i<length sizes. (sizes ! i * t) div ?n) :: rat)
          = (\<Sum>i<length sizes. of_int ((sizes ! i * t) div ?n))"
    by simp
  also have "\<dots> \<le> (\<Sum>i<length sizes. of_int (sizes ! i * t) / of_int ?n)"
  proof (rule sum_mono)
    fix i
    have "(of_int ((sizes ! i * t) div ?n) :: rat)
            = of_int \<lfloor>(of_int (sizes ! i * t) :: rat) / of_int ?n\<rfloor>"
      by (simp only: floor_divide_of_int_eq)
    also have "\<dots> \<le> of_int (sizes ! i * t) / of_int ?n"
      by (rule of_int_floor_le)
    finally show "(of_int ((sizes ! i * t) div ?n) :: rat) \<le> of_int (sizes ! i * t) / of_int ?n" .
  qed
  also have "\<dots> = of_int t * (\<Sum>i<length sizes. of_int (sizes ! i)) / of_int ?n"
    by (simp add: sum_divide_distrib sum_distrib_left mult.commute)
  also have "(\<Sum>i<length sizes. (of_int (sizes ! i) :: rat)) = of_int ?n"
    by (simp add: sum_list_sum_nth atLeast0LessThan)
  also have "of_int t * of_int ?n / of_int ?n = (of_int t :: rat)"
    using assms by simp
  finally have "(of_int (\<Sum>i<length sizes. (sizes ! i * t) div ?n) :: rat) \<le> of_int t" .
  then show ?thesis by (simp only: of_int_le_iff)
qed

lemma inv_ifloors:
  assumes "sum_list sizes \<noteq> 0 \<or> countsByRole = []" and "distinct (map fst countsByRole)"
  shows "inv (set (object_keys countsByRole)) (length sizes) (total_of countsByRole)
           (\<lambda>i. sizes ! i) (ifloors sizes countsByRole) (ifloors sizes countsByRole)"
proof -
  have d: "distinct (object_keys countsByRole)"
    using assms(2) by simp
  have ex: "0 \<le> total_of countsByRole r
              - (\<Sum>i<length sizes. (sizes ! i * total_of countsByRole r) div sum_list sizes)"
    if "r \<in> set (object_keys countsByRole)" for r
  proof -
    have "sum_list sizes \<noteq> 0" using assms(1) that by auto
    from floors_sum_le [OF this] show ?thesis by simp
  qed
  show ?thesis
    using ex by (simp add: inv_def ifloors_def Let_def sum_list_distinct_conv_sum_set [OF d])
qed

lemma jdiv_of_i: "n \<noteq> 0 \<Longrightarrow> jdiv (of_i x) (of_i n) = Fin (of_int x / of_int n)"
  by (simp add: of_i_def)

lemma jsub_frac: "jsub (Fin a) (jfloor (Fin a)) = Fin (a - of_int \<lfloor>a\<rfloor>)"
  by (simp add: jsub_def)

lemma rems_ok_floors:
  assumes "sum_list sizes \<noteq> 0 \<or> countsByRole = []"
  shows "rems_ok (object_keys countsByRole) (length sizes)
           (remainders (floors_state sizes countsByRole))"
  unfolding rems_ok_def
proof (intro ballI allI impI)
  fix r i
  assume r: "r \<in> set (object_keys countsByRole)" and i: "i < length sizes"
  then have n: "sum_list sizes \<noteq> 0" using assms by auto
  have c: "count_of countsByRole r = of_i (total_of countsByRole r)"
    using r by (simp add: count_of_total)
  let ?a = "(of_int (sizes ! i * total_of countsByRole r) :: rat) / of_int (sum_list sizes)"
  have "remainders (floors_state sizes countsByRole) r ! i = Fin (?a - of_int \<lfloor>?a\<rfloor>)"
    using r i n
    by (simp add: floors_state_def Let_def fold_floor_role c jdiv_of_i jsub_frac
        del: jfloor.simps)
  moreover have "0 \<le> ?a - of_int \<lfloor>?a\<rfloor>"
    by simp
  ultimately show "\<exists>q. remainders (floors_state sizes countsByRole) r ! i = Fin q \<and> 0 \<le> q"
    by blast
qed

lemma make_pairs_valid:
  "\<forall>(i, r, x) \<in> set (make_pairs g roles st). i < g \<and> r \<in> set roles"
  by (auto simp: make_pairs_def)

lemma computeRoleTargets_int:
  assumes "sum_list sizes \<noteq> 0 \<or> countsByRole = []" and "distinct (map fst countsByRole)"
    and "[] \<notin> fst ` set countsByRole"
  shows "\<exists>tg ex df.
           computeRoleTargets rnd sizes countsByRole =
             Some (map (\<lambda>r. (r, map (\<lambda>i. of_i (tg r i)) [0..<length sizes]))
                     (object_keys countsByRole),
                   snd (greedy_state rnd sizes countsByRole)) \<and>
           inv (set (object_keys countsByRole)) (length sizes) (total_of countsByRole)
             (\<lambda>i. sizes ! i) (ifloors sizes countsByRole) (tg, ex, df) \<and>
           ((\<Sum>k<length sizes. df k) \<le> 0 \<or> (\<forall>r \<in> set (object_keys countsByRole). ex r = 0))"
proof -
  define roles where "roles = object_keys countsByRole"
  define g where "g = length sizes"
  define st0 where "st0 = floors_state sizes countsByRole"
  define s0 where "s0 = ifloors sizes countsByRole"
  define ps where "ps = sort_pairs (fst (shuffleInPlace rnd (make_pairs g roles st0)))"
  define st1 where "st1 = fold greedy_step ps st0"
  have gs: "greedy_state rnd sizes countsByRole
              = (st1, snd (shuffleInPlace rnd (make_pairs g roles st0)))"
    by (simp add: greedy_state_def Let_def split_def st1_def ps_def st0_def roles_def g_def)
  have r0: "rel roles g st0 s0"
    unfolding roles_def g_def st0_def s0_def by (rule rel_floors [OF assms(1)])
  have i0: "inv (set roles) g (total_of countsByRole) (\<lambda>i. sizes ! i) s0 s0"
    unfolding roles_def g_def s0_def by (rule inv_ifloors [OF assms(1,2)])
  have m0: "rems_ok roles g (remainders st0)"
    unfolding roles_def g_def st0_def by (rule rems_ok_floors [OF assms(1)])
  have v: "\<forall>(i, r, x) \<in> set ps. i < g \<and> r \<in> set roles"
    using make_pairs_valid [of g roles st0] by (simp add: ps_def)
  obtain tg1 ex1 df1 where s1: "fold istep ps s0 = (tg1, ex1, df1)"
    by (cases "fold istep ps s0")
  have 1: "rel roles g st1 (tg1, ex1, df1)"
    "inv (set roles) g (total_of countsByRole) (\<lambda>i. sizes ! i) s0 (tg1, ex1, df1)"
    "remainders st1 = remainders st0"
    using rel_inv_fold_greedy [OF r0 i0 v] by (simp_all add: st1_def s1)
  have m1: "rems_ok roles g (remainders st1)"
    using m0 1(3) by simp
  have ne: "[] \<notin> set roles"
    using assms(3) by (simp add: roles_def)
  from residual_returns [OF 1(1,2) m1 ne]
  obtain st' tg' ex' df' where
    res: "residual roles g (st1, jsum (deficits st1)) = Some st'"
    and post: "rel roles g st' (tg', ex', df')"
      "inv (set roles) g (total_of countsByRole) (\<lambda>i. sizes ! i) s0 (tg', ex', df')"
      "(\<Sum>k<g. df' k) \<le> 0 \<or> (\<forall>r \<in> set roles. ex' r = 0)"
    by blast
  have tbl: "map (\<lambda>r. (r, targets st' r)) roles
               = map (\<lambda>r. (r, map (\<lambda>i. of_i (tg' r i)) [0..<g])) roles"
    using post(1) by (simp add: rel_def)
  have "computeRoleTargets rnd sizes countsByRole =
          Some (map (\<lambda>r. (r, map (\<lambda>i. of_i (tg' r i)) [0..<g])) roles,
                snd (greedy_state rnd sizes countsByRole))"
    using res tbl
    by (simp add: computeRoleTargets_def Let_def gs flip: roles_def g_def)
  then show ?thesis
    using post(2,3) unfolding roles_def g_def s0_def by blast
qed

subsection \<open>Exact tables\<close>

lemma sum_list_total_of:
  assumes "distinct (map fst countsByRole)"
  shows "sum_list (map (total_of countsByRole) (object_keys countsByRole))
           = sum_list (map snd countsByRole)"
proof -
  have "sum_list (map (total_of countsByRole) (object_keys countsByRole))
          = sum_mset (image_mset (total_of countsByRole) (mset (object_keys countsByRole)))"
    by (metis mset_map sum_mset_sum_list)
  also have "\<dots> = sum_mset (image_mset (total_of countsByRole) (mset (map fst countsByRole)))"
    by simp
  also have "\<dots> = sum_list (map (total_of countsByRole) (map fst countsByRole))"
    by (metis mset_map sum_mset_sum_list)
  also have "map (total_of countsByRole) (map fst countsByRole) = map snd countsByRole"
    using assms by (auto simp: total_of_def)
  finally show ?thesis .
qed

lemma floors_row_le:
  fixes T :: "string \<Rightarrow> int"
  assumes "sum_list (map T roles) = n" and "n \<noteq> 0"
  shows "(\<Sum>r\<leftarrow>roles. (s * T r) div n) \<le> s"
proof -
  have "(\<Sum>j<length (map T roles). (map T roles ! j * s) div sum_list (map T roles)) \<le> s"
    using assms by (intro floors_sum_le) simp
  moreover have "(\<Sum>j<length (map T roles). (map T roles ! j * s) div sum_list (map T roles))
                   = (\<Sum>r\<leftarrow>roles. (s * T r) div n)"
    unfolding assms(1)
    by (simp add: sum_list_sum_nth [of "map _ roles"] atLeast0LessThan mult.commute)
  ultimately show ?thesis by simp
qed


lemma computeRoleTargets_exact:
  assumes "\<forall>s \<in> set sizes. 0 \<le> s" and "distinct (map fst countsByRole)"
    and "[] \<notin> fst ` set countsByRole" and "\<forall>c \<in> snd ` set countsByRole. 0 \<le> c"
    and "sum_list (map snd countsByRole) = sum_list sizes" and "0 < sum_list sizes"
  shows "\<exists>tg.
           computeRoleTargets rnd sizes countsByRole =
             Some (map (\<lambda>r. (r, map (\<lambda>i. of_i (tg r i)) [0..<length sizes]))
                     (object_keys countsByRole),
                   snd (greedy_state rnd sizes countsByRole)) \<and>
           (\<forall>r \<in> set (object_keys countsByRole). \<forall>i<length sizes.
              0 \<le> tg r i \<and> (sizes ! i * total_of countsByRole r) div sum_list sizes \<le> tg r i) \<and>
           (\<forall>i<length sizes. (\<Sum>r \<in> set (object_keys countsByRole). tg r i) = sizes ! i) \<and>
           (\<forall>r \<in> set (object_keys countsByRole).
              (\<Sum>i<length sizes. tg r i) = total_of countsByRole r)"
proof -
  define roles where "roles = object_keys countsByRole"
  define R where "R = set roles"
  define g where "g = length sizes"
  define n where "n = sum_list sizes"
  define T where "T = total_of countsByRole"
  have n0: "sum_list sizes \<noteq> 0 \<or> countsByRole = []"
    using assms(6) by simp
  from computeRoleTargets_int [OF n0 assms(2,3), of rnd]
  obtain tg ex df where
    res: "computeRoleTargets rnd sizes countsByRole =
            Some (map (\<lambda>r. (r, map (\<lambda>i. of_i (tg r i)) [0..<g])) roles,
                  snd (greedy_state rnd sizes countsByRole))"
    and iv: "inv R g T (\<lambda>i. sizes ! i) (ifloors sizes countsByRole) (tg, ex, df)"
    and post: "(\<Sum>k<g. df k) \<le> 0 \<or> (\<forall>r \<in> R. ex r = 0)"
    unfolding roles_def R_def g_def T_def by blast
  have dr: "distinct roles" and fin: "finite R"
    using assms(2) by (simp_all add: roles_def R_def)
  have A: "\<And>r. r \<in> R \<Longrightarrow> ex r + (\<Sum>i<g. tg r i) = T r"
    and B: "\<And>r. r \<in> R \<Longrightarrow> 0 \<le> ex r"
    and C: "\<And>r i. r \<in> R \<Longrightarrow> i < g \<Longrightarrow> (sizes ! i * T r) div n \<le> tg r i"
    and D: "\<And>i. i < g \<Longrightarrow> df i + (\<Sum>r \<in> R. tg r i) = sizes ! i"
    and E: "\<And>i. i < g \<Longrightarrow>
              min 0 (sizes ! i - (\<Sum>r\<leftarrow>roles. (sizes ! i * T r) div n)) \<le> df i"
    using iv by (simp_all add: inv_def ifloors_def Let_def roles_def n_def T_def)
  have Tn: "0 \<le> T r" if "r \<in> R" for r
  proof -
    from that obtain c where "(r, c) \<in> set countsByRole"
      by (auto simp: R_def roles_def)
    then show ?thesis
      using assms(2,4) by (force simp: T_def total_of_def)
  qed
  have sumT: "sum_list (map T roles) = n"
    using sum_list_total_of [OF assms(2)] assms(5) by (simp add: T_def roles_def n_def)
  have npos: "0 < n" using assms(6) by (simp add: n_def)
  have tg0: "0 \<le> tg r i" if "r \<in> R" "i < g" for r i
  proof -
    have "0 \<le> sizes ! i" using assms(1) that(2) by (simp add: g_def)
    then have "0 \<le> (sizes ! i * T r) div n"
      using Tn [OF that(1)] npos by (simp add: pos_imp_zdiv_nonneg_iff)
    then show ?thesis using C [OF that] by simp
  qed
  have df0: "0 \<le> df i" if "i < g" for i
  proof -
    have "(\<Sum>r\<leftarrow>roles. (sizes ! i * T r) div n) \<le> sizes ! i"
      using sumT npos by (intro floors_row_le) simp_all
    then show ?thesis using E [OF that] by simp
  qed
  have "(\<Sum>r \<in> R. ex r) + (\<Sum>r \<in> R. \<Sum>i<g. tg r i) = (\<Sum>r \<in> R. T r)"
    using A by (simp flip: sum.distrib)
  moreover have "(\<Sum>r \<in> R. T r) = n"
    using sumT dr by (simp add: R_def sum_list_distinct_conv_sum_set)
  moreover have "(\<Sum>i<g. df i) + (\<Sum>i<g. \<Sum>r \<in> R. tg r i) = (\<Sum>i<g. sizes ! i)"
    using D by (simp flip: sum.distrib)
  moreover have "(\<Sum>i<g. sizes ! i) = n"
    by (simp add: n_def g_def sum_list_sum_nth atLeast0LessThan)
  moreover have "(\<Sum>r \<in> R. \<Sum>i<g. tg r i) = (\<Sum>i<g. \<Sum>r \<in> R. tg r i)"
    by (rule sum.swap)
  ultimately have bal: "(\<Sum>r \<in> R. ex r) = (\<Sum>i<g. df i)"
    by simp
  have dsum: "0 \<le> (\<Sum>i<g. df i)"
    using df0 by (intro sum_nonneg) simp
  have "(\<Sum>i<g. df i) = 0"
  proof (rule disjE [OF post])
    assume "(\<Sum>k<g. df k) \<le> 0"
    then show ?thesis using dsum by simp
  next
    assume "\<forall>r \<in> R. ex r = 0"
    then show ?thesis using bal by simp
  qed
  moreover have "(sum df {..<g} = 0) = (\<forall>i \<in> {..<g}. df i = 0)"
    using df0 by (intro sum_nonneg_eq_0_iff) simp_all
  ultimately have dz: "df i = 0" if "i < g" for i
    using that by simp
  have "(\<Sum>r \<in> R. ex r) = 0"
    using bal \<open>(\<Sum>i<g. df i) = 0\<close> by simp
  moreover have "(sum ex R = 0) = (\<forall>r \<in> R. ex r = 0)"
    using B fin by (intro sum_nonneg_eq_0_iff) simp_all
  ultimately have ez: "ex r = 0" if "r \<in> R" for r
    using that by simp
  have rows: "\<forall>i<g. (\<Sum>r \<in> R. tg r i) = sizes ! i"
    using D dz by force
  have cols: "\<forall>r \<in> R. (\<Sum>i<g. tg r i) = T r"
    using A ez by force
  have lower: "\<forall>r \<in> R. \<forall>i<g. 0 \<le> tg r i \<and> (sizes ! i * T r) div n \<le> tg r i"
    using tg0 C by simp
  show ?thesis
    using res lower rows cols unfolding roles_def R_def g_def T_def n_def by blast
qed

subsection \<open>Capacities that sum to zero\<close>




















section \<open>Properties of the role targets\<close>

text \<open>The table for nine people, six of one role and three of another.\<close>

lemma keys_AB:
  "object_keys [(''A'', x), (''B'', y)] = [''A'', ''B'']"
  "object_keys [(''B'', y), (''A'', x)] = [''B'', ''A'']"
  by (simp_all add: object_keys_def is_array_index_def is_digit_def)

lemma quota_9_6_3:
  assumes "cs = [(''A'', 6), (''B'', 3)] \<or> cs = [(''B'', 3), (''A'', 6)]"
  shows "map_option fst (computeRoleTargets rnd [3, 3, 3] cs)
           = Some (map (\<lambda>r. (r, if r = ''A'' then [Fin 2, Fin 2, Fin 2] else [Fin 1, Fin 1, Fin 1]))
                    (object_keys cs))"
proof -
  have h: "\<forall>s \<in> set [3, 3, 3 :: int]. 0 \<le> s" "distinct (map fst cs)"
    "[] \<notin> fst ` set cs" "\<forall>c \<in> snd ` set cs. 0 \<le> c"
    "sum_list (map snd cs) = sum_list [3, 3, 3]" "0 < sum_list [3, 3, 3 :: int]"
    using assms by auto
  have keys: "set (object_keys cs) = {''A'', ''B''}"
    using assms by auto
  have T: "total_of cs ''A'' = 6" "total_of cs ''B'' = 3"
    using assms by (auto simp: total_of_def)
  from computeRoleTargets_exact [OF h, of rnd]
  obtain tg where
    res0: "computeRoleTargets rnd [3, 3, 3] cs =
            Some (map (\<lambda>r. (r, map (\<lambda>i. of_i (tg r i)) [0..<length [3, 3, 3 :: int]]))
                    (object_keys cs),
                  snd (greedy_state rnd [3, 3, 3] cs))"
    and lo0: "\<forall>r \<in> set (object_keys cs). \<forall>i<length [3, 3, 3 :: int].
               0 \<le> tg r i \<and> ([3, 3, 3] ! i * total_of cs r) div sum_list [3, 3, 3] \<le> tg r i"
    and rows0: "\<forall>i<length [3, 3, 3 :: int].
                 (\<Sum>r \<in> set (object_keys cs). tg r i) = [3, 3, 3] ! i"
    by blast
  have len: "length [3, 3, 3 :: int] = 3" and total: "sum_list [3, 3, 3 :: int] = 9"
    by simp_all
  have res: "computeRoleTargets rnd [3, 3, 3] cs =
            Some (map (\<lambda>r. (r, map (\<lambda>i. of_i (tg r i)) [0..<3])) (object_keys cs),
                  snd (greedy_state rnd [3, 3, 3] cs))"
    using res0 unfolding len .
  have lo: "\<forall>r \<in> {''A'', ''B''}. \<forall>i<3.
               0 \<le> tg r i \<and> ([3, 3, 3] ! i * total_of cs r) div 9 \<le> tg r i"
    using lo0 unfolding keys len total .
  have rows: "\<forall>i<3. (\<Sum>r \<in> {''A'', ''B''}. tg r i) = [3, 3, 3] ! i"
    using rows0 unfolding keys len .
  have cell: "tg ''A'' i = 2 \<and> tg ''B'' i = 1" if "i < 3" for i
  proof -
    have s: "[3, 3, 3 :: int] ! i = 3"
      using that by (cases i rule: nat.exhaust; simp add: nth_Cons split: nat.splits)
    have "([3, 3, 3] ! i * total_of cs ''A'') div 9 \<le> tg ''A'' i"
      and "([3, 3, 3] ! i * total_of cs ''B'') div 9 \<le> tg ''B'' i"
      using lo [rule_format, of "''A''" i] lo [rule_format, of "''B''" i] that by simp_all
    then have "2 \<le> tg ''A'' i" "1 \<le> tg ''B'' i"
      unfolding s T by simp_all
    moreover have "tg ''A'' i + tg ''B'' i = 3"
      using rows [rule_format, of i] that unfolding s by simp
    ultimately show ?thesis by simp
  qed
  have upt3: "[0..<3] = [0, 1, 2 :: nat]"
    by (simp add: upt_rec)
  have row: "map (\<lambda>i. of_i (tg r i)) [0..<3]
               = (if r = ''A'' then [Fin 2, Fin 2, Fin 2] else [Fin 1, Fin 1, Fin 1])"
    if "r \<in> {''A'', ''B''}" for r
    using that cell by (auto simp: upt3 of_i_def simp del: Fin_of_i)
  have "map (\<lambda>r. (r, map (\<lambda>i. of_i (tg r i)) [0..<3])) (object_keys cs)
          = map (\<lambda>r. (r, if r = ''A'' then [Fin 2, Fin 2, Fin 2] else [Fin 1, Fin 1, Fin 1]))
              (object_keys cs)"
    by (rule map_cong [OF refl]) (use row keys in auto)
  then show ?thesis
    using res by simp
qed

text \<open>
  C6: for nine people, six of role \<open>A\<close> and three of role \<open>B\<close>, and a desired size of
  \<open>3\<close>, whatever the random draws are, \<open>computeGroupSizes\<close> gives three groups of
  three and the table of \<open>computeRoleTargets\<close> gives every group two of role \<open>A\<close> and
  one of role \<open>B\<close> (in either order of the two keys).
\<close>

theorem quota_nine_people:
  "computeGroupSizes 9 (Fin 3) = Inr [3, 3, 3] \<and>
   map_option fst (computeRoleTargets rnd [3, 3, 3] [(''A'', 6), (''B'', 3)])
     = Some [(''A'', [Fin 2, Fin 2, Fin 2]), (''B'', [Fin 1, Fin 1, Fin 1])] \<and>
   map_option fst (computeRoleTargets rnd [3, 3, 3] [(''B'', 3), (''A'', 6)])
     = Some [(''B'', [Fin 1, Fin 1, Fin 1]), (''A'', [Fin 2, Fin 2, Fin 2])]"
proof -
  have "computeGroupSizes 9 (Fin 3) = Inr [3, 3, 3]"
    by code_simp
  then show ?thesis
    using quota_9_6_3 [of "[(''A'', 6), (''B'', 3)]" rnd]
      quota_9_6_3 [of "[(''B'', 3), (''A'', 6)]" rnd]
    by (simp add: keys_AB del: Fin_of_i)
qed

subsection \<open>The empty string as a role\<close>










subsection \<open>Termination\<close>




text \<open>
  C1: for positive capacities and an object of counts (distinct non-empty role labels,
  non-negative counts) whose sums both equal \<open>n > 0\<close>, with \<open>n\<close> below \<open>2^26\<close> so that
  every product of a capacity and a count is below \<open>2^53\<close>, \<open>computeRoleTargets\<close>
  returns a table of non-negative integers in which the entries of every group sum to
  its capacity and the entries of every role sum to its count; every entry is at least
  the floor of the quota that the program computes in double precision.
\<close>

theorem computeRoleTargets_sum_invariants:
  assumes "\<forall>s \<in> set sizes. 0 < s" and "distinct (map fst countsByRole)"
    and "\<forall>(r, c) \<in> set countsByRole. r \<noteq> [] \<and> 0 \<le> c"
    and "sum_list sizes = n" and "sum_list (map snd countsByRole) = n" and "0 < n"
    and "n < 2 ^ 26"
  shows "\<exists>q rnd'.
           computeRoleTargets rnd sizes countsByRole =
             Some (map (\<lambda>r. (r, map (\<lambda>i. of_i (int (q r i))) [0..<length sizes]))
                     (object_keys countsByRole), rnd') \<and>
           (\<forall>i<length sizes. (\<Sum>r\<leftarrow>object_keys countsByRole. int (q r i)) = sizes ! i) \<and>
           (\<forall>(r, c) \<in> set countsByRole. (\<Sum>i<length sizes. int (q r i)) = c) \<and>
           (\<forall>(r, c) \<in> set countsByRole. \<forall>i<length sizes.
              \<lfloor>fl (fl (of_int (sizes ! i) * of_int c) / of_int n)\<rfloor> \<le> int (q r i))"
proof -
  define roles where "roles = object_keys countsByRole"
  define g where "g = length sizes"
  have h: "\<forall>s \<in> set sizes. 0 \<le> s" "[] \<notin> fst ` set countsByRole"
    "\<forall>c \<in> snd ` set countsByRole. 0 \<le> c"
    "sum_list (map snd countsByRole) = sum_list sizes" "0 < sum_list sizes"
    using assms by (auto simp: order_less_imp_le)
  from computeRoleTargets_exact [OF h(1) assms(2) h(2,3,4,5), of rnd]
  obtain tg where
    res: "computeRoleTargets rnd sizes countsByRole =
            Some (map (\<lambda>r. (r, map (\<lambda>i. of_i (tg r i)) [0..<g])) roles,
                  snd (greedy_state rnd sizes countsByRole))"
    and lo: "\<forall>r \<in> set roles. \<forall>i<g.
               0 \<le> tg r i \<and> (sizes ! i * total_of countsByRole r) div sum_list sizes \<le> tg r i"
    and rows: "\<forall>i<g. (\<Sum>r \<in> set roles. tg r i) = sizes ! i"
    and cols: "\<forall>r \<in> set roles. (\<Sum>i<g. tg r i) = total_of countsByRole r"
    unfolding roles_def g_def by blast
  define q where "q = (\<lambda>r i. nat (tg r i))"
  have q: "int (q r i) = tg r i" if "r \<in> set roles" "i < g" for r i
    using lo that by (simp add: q_def)
  have dr: "distinct roles"
    using assms(2) by (simp add: roles_def)
  have 1: "map (\<lambda>r. (r, map (\<lambda>i. of_i (int (q r i))) [0..<g])) roles
             = map (\<lambda>r. (r, map (\<lambda>i. of_i (tg r i)) [0..<g])) roles"
    by (rule map_cong [OF refl]) (simp add: q)
  have 2: "(\<Sum>r\<leftarrow>roles. int (q r i)) = sizes ! i" if "i < g" for i
  proof -
    have "(\<Sum>r\<leftarrow>roles. int (q r i)) = (\<Sum>r \<in> set roles. int (q r i))"
      using dr by (rule sum_list_distinct_conv_sum_set)
    also have "\<dots> = (\<Sum>r \<in> set roles. tg r i)"
      by (rule sum.cong) (simp_all add: q that)
    finally show ?thesis using rows that by simp
  qed
  have 3: "(\<Sum>i<g. int (q r i)) = c" if "(r, c) \<in> set countsByRole" for r c
  proof -
    have r: "r \<in> set roles"
      using that by (force simp: roles_def)
    have "total_of countsByRole r = c"
      using that assms(2) by (simp add: total_of_def)
    moreover have "(\<Sum>i<g. int (q r i)) = (\<Sum>i<g. tg r i)"
      by (rule sum.cong) (simp_all add: q r)
    ultimately show ?thesis using cols r by simp
  qed
  have 4: "\<lfloor>fl (fl (of_int (sizes ! i) * of_int c) / of_int n)\<rfloor> \<le> int (q r i)"
    if "(r, c) \<in> set countsByRole" "i < g" for r c i
  proof -
    have r: "r \<in> set roles"
      using that(1) by (force simp: roles_def)
    have T: "total_of countsByRole r = c"
      using that(1) assms(2) by (simp add: total_of_def)
    have i: "i < length sizes"
      using that(2) by (simp add: g_def)
    have b: "sum_list sizes < 2 ^ 26" "sum_list (map snd countsByRole) < 2 ^ 26"
      using assms(4,5,7) by simp_all
    note rg = quota_in_range [OF h(1,3) b i that(1)]
    have "\<lfloor>fl (fl (of_int (sizes ! i) * of_int c) / of_int n)\<rfloor> = (sizes ! i * c) div n"
      by (rule quota_double [OF rg assms(6)])
    also have "\<dots> \<le> tg r i"
      using lo [rule_format, OF r that(2)] unfolding T assms(4) by simp
    finally show ?thesis
      using q [OF r that(2)] by simp
  qed
  have A: "computeRoleTargets rnd sizes countsByRole =
             Some (map (\<lambda>r. (r, map (\<lambda>i. of_i (int (q r i))) [0..<length sizes]))
                     (object_keys countsByRole), snd (greedy_state rnd sizes countsByRole))"
    using res 1 unfolding roles_def g_def by simp
  have B: "\<forall>i<length sizes. (\<Sum>r\<leftarrow>object_keys countsByRole. int (q r i)) = sizes ! i"
    using 2 unfolding roles_def g_def by simp
  have C: "\<forall>(r, c) \<in> set countsByRole. (\<Sum>i<length sizes. int (q r i)) = c"
    using 3 unfolding g_def by auto
  have D: "\<forall>(r, c) \<in> set countsByRole. \<forall>i<length sizes.
             \<lfloor>fl (fl (of_int (sizes ! i) * of_int c) / of_int n)\<rfloor> \<le> int (q r i)"
    using 4 unfolding g_def by auto
  show ?thesis
    using A B C D by blast
qed

theorem computeRoleTargets_sum_invariants_witness:
  "list_all (\<lambda>s. 0 < s) [3, 3, 3 :: int] \<and>
   distinct (map fst [(''A'', 5 :: int), (''B'', 4)]) \<and>
   list_all (\<lambda>(r, c). r \<noteq> [] \<and> 0 \<le> c) [(''A'', 5 :: int), (''B'', 4)] \<and>
   sum_list [3, 3, 3 :: int] = 9 \<and> sum_list (map snd [(''A'', 5 :: int), (''B'', 4)]) = 9 \<and>
   (0 :: int) < 9 \<and> (9 :: int) < 2 ^ 26 \<and>
   (\<exists>q rnd'.
      computeRoleTargets zero_rng [3, 3, 3] [(''A'', 5), (''B'', 4)] =
        Some (map (\<lambda>r. (r, map (\<lambda>i. of_i (int (q r i))) [0..<length [3, 3, 3 :: int]]))
                (object_keys [(''A'', 5 :: int), (''B'', 4)]), rnd') \<and>
      (\<forall>i<length [3, 3, 3 :: int].
         (\<Sum>r\<leftarrow>object_keys [(''A'', 5 :: int), (''B'', 4)]. int (q r i)) = [3, 3, 3] ! i) \<and>
      (\<forall>(r, c) \<in> set [(''A'', 5 :: int), (''B'', 4)].
         (\<Sum>i<length [3, 3, 3 :: int]. int (q r i)) = c) \<and>
      (\<forall>(r, c) \<in> set [(''A'', 5 :: int), (''B'', 4)]. \<forall>i<length [3, 3, 3 :: int].
         \<lfloor>fl (fl (of_int ([3, 3, 3] ! i) * of_int c) / of_int 9)\<rfloor> \<le> int (q r i)))"
proof -
  have h: "\<forall>s \<in> set [3, 3, 3 :: int]. 0 < s"
    "distinct (map fst [(''A'', 5 :: int), (''B'', 4)])"
    "\<forall>(r, c) \<in> set [(''A'', 5 :: int), (''B'', 4)]. r \<noteq> [] \<and> 0 \<le> c"
    "sum_list [3, 3, 3 :: int] = 9" "sum_list (map snd [(''A'', 5 :: int), (''B'', 4)]) = 9"
    "0 < (9 :: int)" "(9 :: int) < 2 ^ 26"
    by simp_all
  have l: "list_all (\<lambda>s. 0 < s) [3, 3, 3 :: int]"
    "list_all (\<lambda>(r, c). r \<noteq> [] \<and> 0 \<le> c) [(''A'', 5 :: int), (''B'', 4)]"
    by simp_all
  show ?thesis
    using computeRoleTargets_sum_invariants [OF h, of zero_rng] h(2,4,5,6,7) l by blast
qed

lemma foldl_best_no_extras:
  "\<forall>r \<in> set rs. \<not> jgt (extras st r) (Fin 0) \<Longrightarrow> foldl (best_step st i) acc rs = acc"
  by (induction rs arbitrary: acc) (auto simp: best_step_def simp del: Fin_of_i)

lemma fill_group_no_extras:
  assumes "\<forall>r \<in> set roles. \<not> jgt (extras st r) (Fin 0)"
  shows "fill_group roles i (st, rd) = Some (st, rd)"
  by (subst fill_group.simps) (simp add: find_best_def foldl_best_no_extras [OF assms] del: Fin_of_i)

lemma fill_groups_no_extras:
  assumes "\<forall>r \<in> set roles. \<not> jgt (extras st r) (Fin 0)"
  shows "fill_groups roles g i (st, rd) = Some (st, rd)"
proof (induction "g - i" arbitrary: i)
  case 0
  then show ?case by (subst fill_groups.simps) simp
next
  case (Suc k)
  then have "k = g - Suc i" by simp
  from Suc.hyps(1) [OF this] show ?case
    by (subst fill_groups.simps) (simp add: fill_group_no_extras [OF assms])
qed

lemma residual_no_extras:
  assumes "\<forall>r \<in> set roles. \<not> jgt (extras st r) (Fin 0)"
    and "jeq (foldl (\<lambda>acc r. jadd acc (extras st r)) (Fin 0) roles) (Fin 0)"
  shows "residual roles g (st, rd) = Some st"
  using assms(2)
  by (subst residual.simps) (simp add: fill_groups_no_extras [OF assms(1)] del: Fin_of_i)

text \<open>
  C4, as the program has it: the residual pass has no failure branch. Whenever no role
  has extras left and the extras total zero, it stops and hands back the tables as they
  are, whatever deficits remain.
\<close>

theorem residual_returns_silently:
  assumes "\<forall>r \<in> set roles. \<not> jgt (extras st r) (Fin 0)"
    and "jeq (foldl (\<lambda>acc r. jadd acc (extras st r)) (Fin 0) roles) (Fin 0)"
  shows "residual roles g (st, remainingDeficit) = Some st"
  using assms by (rule residual_no_extras)

theorem residual_returns_silently_witness:
  "\<not> jgt (extras (fst (greedy_state zero_rng [3] [(''A'', 2)])) ''A'') (Fin 0) \<and>
   jeq (foldl (\<lambda>acc r. jadd acc (extras (fst (greedy_state zero_rng [3] [(''A'', 2)])) r))
          (Fin 0) [''A'']) (Fin 0) \<and>
   jgt (deficits (fst (greedy_state zero_rng [3] [(''A'', 2)])) ! 0) (Fin 0) \<and>
   residual [''A''] 1 (fst (greedy_state zero_rng [3] [(''A'', 2)]), Fin 1)
     = Some (fst (greedy_state zero_rng [3] [(''A'', 2)]))"
proof -
  have e: "extras (fst (greedy_state zero_rng [3] [(''A'', 2)])) ''A'' = Fin 0"
    by code_simp
  have d: "deficits (fst (greedy_state zero_rng [3] [(''A'', 2)])) = [Fin 1]"
    by code_simp
  have 1: "\<forall>r \<in> set [''A'']. \<not> jgt (extras (fst (greedy_state zero_rng [3] [(''A'', 2)])) r) (Fin 0)"
    by (simp add: e del: Fin_of_i) (simp add: jgt_def)
  have 2: "jeq (foldl (\<lambda>acc r. jadd acc (extras (fst (greedy_state zero_rng [3] [(''A'', 2)])) r))
          (Fin 0) [''A'']) (Fin 0)"
    by (simp add: e del: Fin_of_i)
  have 3: "jgt (deficits (fst (greedy_state zero_rng [3] [(''A'', 2)])) ! 0) (Fin 0)"
    by (simp add: d del: Fin_of_i) (simp add: jgt_def)
  have 4: "\<not> jgt (extras (fst (greedy_state zero_rng [3] [(''A'', 2)])) ''A'') (Fin 0)"
    using 1 by simp
  show ?thesis
    using residual_returns_silently [OF 1 2, of 1 "Fin 1"] 4 2 3 by blast
qed

text \<open>
  The claim C4 fails for one group of capacity \<open>3\<close> and two people of role \<open>A\<close>: after
  the largest-remainders pass the group has a deficit of \<open>1\<close> and the role has no extras,
  and \<open>computeRoleTargets\<close> returns the table \<open>A: [2]\<close>.
\<close>

theorem residual_leaves_deficit:
  "deficits (fst (greedy_state zero_rng [3] [(''A'', 2)])) = [Fin 1] \<and>
   extras (fst (greedy_state zero_rng [3] [(''A'', 2)])) ''A'' = Fin 0 \<and>
   map_option fst (computeRoleTargets zero_rng [3] [(''A'', 2)]) = Some [(''A'', [Fin 2])]"
proof -
  have e: "extras (fst (greedy_state zero_rng [3] [(''A'', 2)])) ''A'' = Fin 0"
    by code_simp
  have d: "deficits (fst (greedy_state zero_rng [3] [(''A'', 2)])) = [Fin 1]"
    by code_simp
  have t: "targets (fst (greedy_state zero_rng [3] [(''A'', 2)])) ''A'' = [Fin 2]"
    by code_simp
  have k: "object_keys [(''A'', 2 :: int)] = [''A'']"
    by (simp add: object_keys_def is_array_index_def is_digit_def)
  obtain st rnd' where gs: "greedy_state zero_rng [3] [(''A'', 2)] = (st, rnd')"
    by (cases "greedy_state zero_rng [3] [(''A'', 2)]")
  have "residual [''A''] 1 (st, jsum (deficits st)) = Some st"
    using e gs by (intro residual_no_extras) (simp_all add: jgt_def del: Fin_of_i)
  then show ?thesis
    using e d t gs by (simp add: computeRoleTargets_def Let_def k del: Fin_of_i)
qed

section \<open>Properties of the allocation\<close>

lemma take_need_int:
  "idx \<le> length pool \<Longrightarrow>
   take_need r (of_i m) k pool idx grp =
     (if idx + (nat m - k) \<le> length pool
      then Inr (idx + (nat m - k), grp @ take (nat m - k) (drop idx pool))
      else Inl (InsufficientRoleSupply r))"
proof (induction "nat m - k" arbitrary: k idx grp)
  case 0
  then have "\<not> int k < m" by simp
  then show ?case
    using 0 by (subst take_need.simps) (simp add: of_i_def)
next
  case (Suc d)
  then have lt: "int k < m" and d: "d = nat m - Suc k" and e: "nat m - k = Suc d"
    by simp_all
  show ?case
  proof (cases "length pool \<le> idx")
    case True
    then show ?thesis
      using lt e by (subst take_need.simps) (simp add: of_i_def)
  next
    case False
    then have idx: "idx < length pool" by simp
    have tk: "take (Suc d) (drop idx pool) = pool ! idx # take d (drop (Suc idx) pool)"
      using idx by (simp add: take_Suc_conv_app_nth Cons_nth_drop_Suc [symmetric])
    have "take_need r (of_i m) k pool idx grp
            = take_need r (of_i m) (Suc k) pool (Suc idx) (grp @ [pool ! idx])"
      using lt idx by (subst take_need.simps) (simp add: of_i_def)
    also have "\<dots> = (if Suc idx + d \<le> length pool
                       then Inr (Suc idx + d, (grp @ [pool ! idx]) @ take d (drop (Suc idx) pool))
                       else Inl (InsufficientRoleSupply r))"
      using Suc.hyps(1) [OF d, of "Suc idx" "grp @ [pool ! idx]"] idx
      unfolding d [symmetric] by simp
    finally show ?thesis
      by (simp add: e tk)
  qed
qed


lemma mset_concat_update:
  "j < length xs \<Longrightarrow> mset (concat (xs[j := xs ! j @ ys])) = mset (concat xs) + mset ys"
proof (induction xs arbitrary: j)
  case Nil
  then show ?case by simp
next
  case (Cons x xs)
  then show ?case by (cases j) simp_all
qed

lemma assign_groups_ok:
  assumes "\<forall>gi<g. need_at tbl r gi = of_i (c gi)"
  shows "length groups = g \<Longrightarrow> gi \<le> g \<Longrightarrow>
         idx + (\<Sum>j = gi..<g. nat (c j)) \<le> length pool \<Longrightarrow>
         \<exists>groups'.
           assign_groups tbl r pool g gi (idx, groups)
             = Inr (idx + (\<Sum>j = gi..<g. nat (c j)), groups') \<and>
           length groups' = g \<and>
           (\<forall>j<g. length (groups' ! j)
                     = length (groups ! j) + (if gi \<le> j then nat (c j) else 0)) \<and>
           mset (concat groups')
             = mset (concat groups) + mset (take (\<Sum>j = gi..<g. nat (c j)) (drop idx pool))"
proof (induction "g - gi" arbitrary: gi idx groups)
  case 0
  then have "gi = g" by simp
  then show ?case
    using 0 by (subst assign_groups.simps) simp
next
  case (Suc d)
  then have gi: "gi < g" and d: "d = g - Suc gi" by simp_all
  let ?a = "nat (c gi)"
  let ?S = "\<Sum>j = Suc gi..<g. nat (c j)"
  have split: "(\<Sum>j = gi..<g. nat (c j)) = ?a + ?S"
    using gi by (simp add: sum.atLeast_Suc_lessThan)
  have room: "idx + ?a \<le> length pool" "idx \<le> length pool"
    using Suc.prems(3) split by simp_all
  let ?grp = "groups ! gi @ take ?a (drop idx pool)"
  let ?groups1 = "groups[gi := ?grp]"
  have tn: "take_need r (need_at tbl r gi) 0 pool idx (groups ! gi) = Inr (idx + ?a, ?grp)"
    using assms gi room take_need_int [OF room(2), of r "c gi" 0 "groups ! gi"] by simp
  have l1: "length ?groups1 = g" using Suc.prems(1) by simp
  have r1: "(idx + ?a) + ?S \<le> length pool"
    using Suc.prems(3) split by simp
  from Suc.hyps(1) [OF d l1 _ r1] gi
  obtain groups' where
    rec: "assign_groups tbl r pool g (Suc gi) (idx + ?a, ?groups1) = Inr (idx + ?a + ?S, groups')"
    and len: "length groups' = g"
    and lens: "\<forall>j<g. length (groups' ! j)
                 = length (?groups1 ! j) + (if Suc gi \<le> j then nat (c j) else 0)"
    and ms: "mset (concat groups') = mset (concat ?groups1) + mset (take ?S (drop (idx + ?a) pool))"
    by auto
  have 1: "assign_groups tbl r pool g gi (idx, groups)
             = Inr (idx + (\<Sum>j = gi..<g. nat (c j)), groups')"
    using gi tn rec by (subst assign_groups.simps) (simp add: split add.assoc)
  have 2: "\<forall>j<g. length (groups' ! j)
                    = length (groups ! j) + (if gi \<le> j then nat (c j) else 0)"
  proof (intro allI impI)
    fix j assume j: "j < g"
    show "length (groups' ! j) = length (groups ! j) + (if gi \<le> j then nat (c j) else 0)"
    proof (cases "j = gi")
      case True
      have "length (take ?a (drop idx pool)) = ?a"
        using room(1) by simp
      then have "length (?groups1 ! gi) = length (groups ! gi) + ?a"
        using gi Suc.prems(1) by (simp del: length_take)
      then show ?thesis
        using lens [rule_format, OF j] True by (simp del: length_take nth_list_update_eq)
    next
      case False
      then show ?thesis
        using lens [rule_format, OF j] gi Suc.prems(1) by auto
    qed
  qed
  have "mset (concat ?groups1) = mset (concat groups) + mset (take ?a (drop idx pool))"
    using gi Suc.prems(1) by (intro mset_concat_update) simp
  moreover have "take (?a + ?S) (drop idx pool)
                   = take ?a (drop idx pool) @ take ?S (drop (idx + ?a) pool)"
    by (simp add: take_add add.commute)
  ultimately have 3: "mset (concat groups')
      = mset (concat groups) + mset (take (\<Sum>j = gi..<g. nat (c j)) (drop idx pool))"
    using ms by (simp add: split)
  show ?case
    using 1 len 2 3 by blast
qed



lemma pool_of_update: "pool_of (AList.update k v al) x = (if x = k then v else pool_of al x)"
  by (simp add: pool_of_def update_conv')

lemma keys_update: "fst ` set (AList.update k v al) = insert k (fst ` set al)"
  by (simp add: dom_update)

lemma assign_role_ok:
  assumes "\<forall>gi<g. need_at tbl r gi = of_i (c gi)" and "length groups = g"
    and "(\<Sum>j<g. nat (c j)) = length (pool_of byRole r)"
  shows "\<exists>groups'.
           assign_role tbl g r (byRole, groups) = Inr (AList.update r [] byRole, groups') \<and>
           length groups' = g \<and>
           (\<forall>j<g. length (groups' ! j) = length (groups ! j) + nat (c j)) \<and>
           mset (concat groups') = mset (concat groups) + mset (pool_of byRole r)"
proof -
  let ?pool = "pool_of byRole r"
  have S: "(\<Sum>j = 0..<g. nat (c j)) = length ?pool"
    using assms(3) by (simp add: atLeast0LessThan)
  from assign_groups_ok [OF assms(1,2), of 0 0 ?pool] S
  obtain groups' where
    ag: "assign_groups tbl r ?pool g 0 (0, groups) = Inr (length ?pool, groups')"
    and len: "length groups' = g"
    and lens: "\<forall>j<g. length (groups' ! j) = length (groups ! j) + nat (c j)"
    and ms: "mset (concat groups') = mset (concat groups) + mset ?pool"
    by auto
  have "assign_role tbl g r (byRole, groups) = Inr (AList.update r [] byRole, groups')"
    by (simp add: assign_role_def Let_def ag)
  then show ?thesis
    using len lens ms by blast
qed

lemma assign_roles_ok:
  assumes "\<forall>r \<in> set rs. \<forall>gi<g. need_at tbl r gi = of_i (c r gi)"
  shows "distinct rs \<Longrightarrow> length groups = g \<Longrightarrow>
         \<forall>r \<in> set rs. (\<Sum>j<g. nat (c r j)) = length (pool_of byRole r) \<Longrightarrow>
         \<exists>byRole' groups'.
           assign_roles tbl g rs (byRole, groups) = Inr (byRole', groups') \<and>
           length groups' = g \<and>
           (\<forall>j<g. length (groups' ! j) = length (groups ! j) + (\<Sum>r\<leftarrow>rs. nat (c r j))) \<and>
           mset (concat groups')
             = mset (concat groups) + (\<Sum>r\<leftarrow>rs. mset (pool_of byRole r)) \<and>
           (\<forall>k. pool_of byRole' k = (if k \<in> set rs then [] else pool_of byRole k)) \<and>
           fst ` set byRole' = fst ` set byRole \<union> set rs"
  using assms
proof (induction rs arbitrary: byRole groups)
  case Nil
  then show ?case by simp
next
  case (Cons r rs)
  have n: "\<forall>gi<g. need_at tbl r gi = of_i (c r gi)"
    using Cons.prems(4) by simp
  have s: "(\<Sum>j<g. nat (c r j)) = length (pool_of byRole r)"
    using Cons.prems(3) by simp
  from assign_role_ok [OF n Cons.prems(2) s]
  obtain groups1 where
    ar: "assign_role tbl g r (byRole, groups) = Inr (AList.update r [] byRole, groups1)"
    and len1: "length groups1 = g"
    and lens1: "\<forall>j<g. length (groups1 ! j) = length (groups ! j) + nat (c r j)"
    and ms1: "mset (concat groups1) = mset (concat groups) + mset (pool_of byRole r)"
    by blast
  let ?b1 = "AList.update r [] byRole"
  have rn: "r \<notin> set rs" and d: "distinct rs"
    using Cons.prems(1) by simp_all
  have same: "pool_of ?b1 x = pool_of byRole x" if "x \<in> set rs" for x
    using that rn by (auto simp: pool_of_update)
  have s1: "\<forall>x \<in> set rs. (\<Sum>j<g. nat (c x j)) = length (pool_of ?b1 x)"
    using Cons.prems(3) same by simp
  have n1: "\<forall>x \<in> set rs. \<forall>gi<g. need_at tbl x gi = of_i (c x gi)"
    using Cons.prems(4) by simp
  from Cons.IH [OF d len1 s1 n1]
  obtain byRole' groups' where
    rec: "assign_roles tbl g rs (?b1, groups1) = Inr (byRole', groups')"
    and len: "length groups' = g"
    and lens: "\<forall>j<g. length (groups' ! j) = length (groups1 ! j) + (\<Sum>x\<leftarrow>rs. nat (c x j))"
    and ms: "mset (concat groups') = mset (concat groups1) + (\<Sum>x\<leftarrow>rs. mset (pool_of ?b1 x))"
    and pools: "\<forall>k. pool_of byRole' k = (if k \<in> set rs then [] else pool_of ?b1 k)"
    and keys: "fst ` set byRole' = fst ` set ?b1 \<union> set rs"
    by blast
  have 1: "assign_roles tbl g (r # rs) (byRole, groups) = Inr (byRole', groups')"
    by (simp add: ar rec)
  have 2: "\<forall>j<g. length (groups' ! j) = length (groups ! j) + (\<Sum>x\<leftarrow>r # rs. nat (c x j))"
    using lens lens1 by simp
  have "(\<Sum>x\<leftarrow>rs. mset (pool_of ?b1 x)) = (\<Sum>x\<leftarrow>rs. mset (pool_of byRole x))"
    by (rule arg_cong [where f = sum_list], rule map_cong [OF refl]) (simp add: same)
  then have 3: "mset (concat groups')
                  = mset (concat groups) + (\<Sum>x\<leftarrow>r # rs. mset (pool_of byRole x))"
    using ms ms1 by simp
  have 4: "\<forall>k. pool_of byRole' k = (if k \<in> set (r # rs) then [] else pool_of byRole k)"
    using pools by (auto simp: pool_of_update)
  have 5: "fst ` set byRole' = fst ` set byRole \<union> set (r # rs)"
    using keys by (auto simp: keys_update)
  show ?case
    using 1 len 2 3 4 5 by blast
qed

lemma pm_update:
  "map_of al k = Some old \<Longrightarrow> pm (AList.update k v al) + mset old = pm al + mset v"
proof (induction al)
  case Nil
  then show ?case by simp
next
  case (Cons a al)
  obtain k' v' where a: "a = (k', v')" by (cases a)
  show ?case
  proof (cases "k = k'")
    case True
    then show ?thesis using Cons.prems by (simp add: a pm_def)
  next
    case False
    then have "pm (AList.update k v al) + mset old = pm al + mset v"
      using Cons by (simp add: a)
    then show ?thesis
      using False by (simp add: a pm_def add.assoc add.left_commute)
  qed
qed

lemma keys_update_present:
  "k \<in> fst ` set al \<Longrightarrow> map fst (AList.update k v al) = map fst al"
  by (simp add: update_keys)

lemma add_person_ok:
  assumes "role p \<notin> set object_prototype_keys"
  shows "\<exists>b. add_person p byRole = Inr b \<and> pm b = pm byRole + {#p#} \<and>
             fst ` set b = insert (role p) (fst ` set byRole) \<and>
             (distinct (map fst byRole) \<longrightarrow> distinct (map fst b))"
proof (cases "map_of byRole (role p)")
  case None
  then have "role p \<notin> fst ` set byRole"
    by (simp add: map_of_eq_None_iff)
  then show ?thesis
    using None assms by (auto simp: add_person_def pm_def)
next
  case (Some pool)
  then have k: "role p \<in> fst ` set byRole"
    using map_of_eq_None_iff [of byRole "role p"] by simp
  have "pm (AList.update (role p) (pool @ [p]) byRole) + mset pool
          = pm byRole + mset (pool @ [p])"
    by (rule pm_update [OF Some])
  then have "pm (AList.update (role p) (pool @ [p]) byRole) = pm byRole + {#p#}"
    by simp
  then show ?thesis
    using Some k by (auto simp: add_person_def keys_update distinct_update)
qed

lemma group_by_role_ok:
  assumes "\<forall>p \<in> set people. role p \<notin> set object_prototype_keys"
  shows "\<exists>b. group_by_role people byRole = Inr b \<and> pm b = pm byRole + mset people \<and>
             fst ` set b = fst ` set byRole \<union> role ` set people \<and>
             (distinct (map fst byRole) \<longrightarrow> distinct (map fst b))"
  using assms
proof (induction people arbitrary: byRole)
  case Nil
  then show ?case by simp
next
  case (Cons p people)
  from add_person_ok [of p byRole] Cons.prems
  obtain b1 where 1: "add_person p byRole = Inr b1" "pm b1 = pm byRole + {#p#}"
    "fst ` set b1 = insert (role p) (fst ` set byRole)"
    "distinct (map fst byRole) \<longrightarrow> distinct (map fst b1)"
    by auto
  from Cons.IH [of b1] Cons.prems
  obtain b where 2: "group_by_role people b1 = Inr b" "pm b = pm b1 + mset people"
    "fst ` set b = fst ` set b1 \<union> role ` set people"
    "distinct (map fst b1) \<longrightarrow> distinct (map fst b)"
    by auto
  show ?case
    using 1 2 by (intro exI [of _ b]) auto
qed

lemma group_by_role_inherited:
  assumes "\<exists>p \<in> set people. role p \<in> set object_prototype_keys"
  shows "fst ` set byRole \<inter> set object_prototype_keys = {} \<Longrightarrow>
         group_by_role people byRole = Inl TypeError"
  using assms
proof (induction people arbitrary: byRole)
  case Nil
  then show ?case by simp
next
  case (Cons p people)
  show ?case
  proof (cases "role p \<in> set object_prototype_keys")
    case True
    then have "role p \<notin> fst ` set byRole"
      using Cons.prems(1) by auto
    then have "map_of byRole (role p) = None"
      by (simp add: map_of_eq_None_iff)
    then show ?thesis
      using True by (simp add: add_person_def)
  next
    case False
    from add_person_ok [OF False, of byRole]
    obtain b1 where 1: "add_person p byRole = Inr b1"
      "fst ` set b1 = insert (role p) (fst ` set byRole)"
      by auto
    have "fst ` set b1 \<inter> set object_prototype_keys = {}"
      using 1(2) False Cons.prems(1) by auto
    moreover have "\<exists>q \<in> set people. role q \<in> set object_prototype_keys"
      using Cons.prems(2) False by auto
    ultimately have "group_by_role people b1 = Inl TypeError"
      by (rule Cons.IH)
    then show ?thesis
      by (simp add: 1(1))
  qed
qed

lemma shuffle_pool_ok:
  assumes "r \<in> fst ` set byRole"
  shows "pm (fst (shuffle_pool r (byRole, rnd))) = pm byRole \<and>
         map fst (fst (shuffle_pool r (byRole, rnd))) = map fst byRole"
proof -
  obtain pool where p: "map_of byRole r = Some pool"
    using assms map_of_eq_None_iff [of byRole r] by (cases "map_of byRole r") simp_all
  let ?pool' = "fst (shuffleInPlace rnd pool)"
  have "pm (AList.update r ?pool' byRole) + mset pool = pm byRole + mset ?pool'"
    by (rule pm_update [OF p])
  then have "pm (AList.update r ?pool' byRole) = pm byRole"
    by simp
  then show ?thesis
    using assms p by (simp add: shuffle_pool_def split_def Let_def pool_of_def keys_update_present)
qed

lemma shuffle_pools_ok:
  "set ks \<subseteq> fst ` set byRole \<Longrightarrow>
   pm (fst (fold shuffle_pool ks (byRole, rnd))) = pm byRole \<and>
   map fst (fst (fold shuffle_pool ks (byRole, rnd))) = map fst byRole"
proof (induction ks arbitrary: byRole rnd)
  case Nil
  then show ?case by simp
next
  case (Cons k ks)
  obtain b1 rnd1 where s: "shuffle_pool k (byRole, rnd) = (b1, rnd1)"
    by (cases "shuffle_pool k (byRole, rnd)")
  have 1: "pm b1 = pm byRole" "map fst b1 = map fst byRole"
    using shuffle_pool_ok [of k byRole rnd] Cons.prems by (simp_all add: s)
  then have "set ks \<subseteq> fst ` set b1"
    using Cons.prems by (metis list.set_map set_subset_Cons subset_trans)
  from Cons.IH [OF this, of rnd1] show ?case
    using 1 by (simp add: s)
qed

lemma pools_by_keys:
  assumes "distinct (map fst byRole)" and "mset ks = mset (map fst byRole)"
  shows "(\<Sum>k\<leftarrow>ks. mset (pool_of byRole k)) = pm byRole"
proof -
  have "(\<Sum>k\<leftarrow>ks. mset (pool_of byRole k))
          = sum_mset (image_mset (\<lambda>k. mset (pool_of byRole k)) (mset ks))"
    by (metis mset_map sum_mset_sum_list)
  also have "\<dots> = (\<Sum>k\<leftarrow>map fst byRole. mset (pool_of byRole k))"
    unfolding assms(2) by (metis mset_map sum_mset_sum_list)
  also have "map (\<lambda>k. mset (pool_of byRole k)) (map fst byRole) = map (mset \<circ> snd) byRole"
    using assms(1) by (auto simp: pool_of_def)
  also have "sum_list (map (mset \<circ> snd) byRole) = pm byRole"
    by (simp add: pm_def mset_concat comp_def)
  finally show ?thesis .
qed


lemma map_of_keyed: "r \<in> set ks \<Longrightarrow> map_of (map (\<lambda>k. (k, F k)) ks) r = Some (F r)"
  by (induction ks) auto

lemma size_sum_list_mset:
  fixes M :: "'a \<Rightarrow> 'b multiset"
  shows "size (\<Sum>x\<leftarrow>xs. M x) = (\<Sum>x\<leftarrow>xs. size (M x))"
  by (induction xs) simp_all

lemma int_sum_list: "int (\<Sum>x\<leftarrow>xs. f x) = (\<Sum>x\<leftarrow>xs. int (f x))"
  by (induction xs) simp_all

lemma computeGroupSizes_ok:
  assumes "2 \<le> n" and "2 \<le> d"
  shows "\<exists>sizes. computeGroupSizes n (Fin d) = Inr sizes \<and> sum_list sizes = n \<and>
                 (\<forall>s \<in> set sizes. 1 \<le> s)"
proof -
  define g where "g = max 1 (math_round (fl (of_int n / d)))"
  have g: "0 < g" "g \<le> n"
    using group_count_le [OF assms] by (simp_all add: g_def)
  show ?thesis
    using computeGroupSizes_finite [OF assms(2), of n] group_sizes_facts(2,3) [OF g]
    by (simp add: Let_def flip: g_def)
qed

lemma allocateGroups_ok:
  assumes "2 \<le> length people" and "2 \<le> d"
    and "\<forall>p \<in> set people. role p \<noteq> []"
    and "\<forall>p \<in> set people. role p \<notin> set object_prototype_keys"
  shows "\<exists>sizes groups.
           computeGroupSizes (int (length people)) (Fin d) = Inr sizes \<and>
           allocateGroups rnd people (Fin d) =
             Some (Inr (groups,
                        concat (map (\<lambda>gi. map (\<lambda>p. (name p, role p, gi + 1)) (groups ! gi))
                                  [0..<length sizes]))) \<and>
           map (\<lambda>gr. int (length gr)) groups = sizes \<and>
           mset (concat groups) = mset people"
proof -
  define n where "n = int (length people)"
  have n2: "2 \<le> n" using assms(1) by (simp add: n_def)
  from computeGroupSizes_ok [OF n2 assms(2)]
  obtain sizes where cgs: "computeGroupSizes n (Fin d) = Inr sizes"
    and sum: "sum_list sizes = n" and pos: "\<forall>s \<in> set sizes. 1 \<le> s"
    by blast
  define g where "g = length sizes"
  from group_by_role_ok [OF assms(4), of "[]"]
  obtain b0 where gbr: "group_by_role people [] = Inr b0" and pm0: "pm b0 = mset people"
    and keys0: "fst ` set b0 = role ` set people" and d0: "distinct (map fst b0)"
    by (auto simp: pm_def)
  obtain byRole rnd1 where sh: "fold shuffle_pool (object_keys b0) (b0, rnd) = (byRole, rnd1)"
    by (cases "fold shuffle_pool (object_keys b0) (b0, rnd)")
  have shp: "pm byRole = pm b0" "map fst byRole = map fst b0"
    using shuffle_pools_ok [of "object_keys b0" b0 rnd] by (simp_all add: sh)
  have pmb: "pm byRole = mset people" and db: "distinct (map fst byRole)"
    using shp pm0 d0 by simp_all
  have "set (map fst byRole) = set (map fst b0)"
    by (simp only: shp(2))
  then have keysb: "fst ` set byRole = role ` set people"
    using keys0 by simp
  define roles where "roles = object_keys byRole"
  define counts where "counts = map (\<lambda>r. (r, int (length (pool_of byRole r)))) roles"
  have droles: "distinct roles" and sroles: "set roles = role ` set people"
    and mroles: "mset roles = mset (map fst byRole)"
    using db keysb by (simp_all add: roles_def)
  have fc: "map fst counts = roles"
    by (simp add: counts_def comp_def)
  have h1: "\<forall>s \<in> set sizes. 0 \<le> s"
    using pos by force
  have h2: "distinct (map fst counts)"
    using droles by (simp add: fc)
  have "set (map fst counts) = role ` set people"
    using sroles by (simp only: fc)
  then have h3: "[] \<notin> fst ` set counts"
    using assms(3) by auto
  have h4: "\<forall>c \<in> snd ` set counts. 0 \<le> c"
    by (auto simp: counts_def)
  have "sum_list (map snd counts) = (\<Sum>r\<leftarrow>roles. int (size (mset (pool_of byRole r))))"
    by (simp add: counts_def comp_def)
  also have "\<dots> = int (size (\<Sum>r\<leftarrow>roles. mset (pool_of byRole r)))"
    by (simp only: size_sum_list_mset int_sum_list)
  also have "(\<Sum>r\<leftarrow>roles. mset (pool_of byRole r)) = pm byRole"
    using db mroles by (rule pools_by_keys)
  finally have h5: "sum_list (map snd counts) = sum_list sizes"
    by (simp add: pmb sum n_def)
  have h6: "0 < sum_list sizes"
    using sum n2 by simp
  define roles2 where "roles2 = object_keys counts"
  from computeRoleTargets_exact [OF h1 h2 h3 h4 h5 h6, of rnd1]
  obtain tg where
    crt: "computeRoleTargets rnd1 sizes counts =
            Some (map (\<lambda>r. (r, map (\<lambda>i. of_i (tg r i)) [0..<g])) roles2,
                  snd (greedy_state rnd1 sizes counts))"
    and lo: "\<forall>r \<in> set roles2. \<forall>i<g.
               0 \<le> tg r i \<and> (sizes ! i * total_of counts r) div sum_list sizes \<le> tg r i"
    and rows: "\<forall>i<g. (\<Sum>r \<in> set roles2. tg r i) = sizes ! i"
    and cols: "\<forall>r \<in> set roles2. (\<Sum>i<g. tg r i) = total_of counts r"
    unfolding roles2_def g_def by blast
  define tbl where "tbl = map (\<lambda>r. (r, map (\<lambda>i. of_i (tg r i)) [0..<g])) roles2"
  define rnd2 where "rnd2 = snd (greedy_state rnd1 sizes counts)"
  define roles3 where "roles3 = object_keys tbl"
  have ft: "map fst tbl = roles2"
    by (simp add: tbl_def comp_def)
  have m2: "mset roles2 = mset roles"
    unfolding roles2_def mset_object_keys fc ..
  then have s2: "set roles2 = set roles"
    by (rule mset_eq_setD)
  have m3': "mset roles3 = mset roles2"
    unfolding roles3_def mset_object_keys ft ..
  then have m3: "mset roles3 = mset (map fst byRole)"
    using m2 mroles by simp
  have s3: "set roles3 = set roles"
    using m3' m2 by (metis mset_eq_setD)
  have d3: "distinct roles3"
    using m3 db by (metis mset_eq_imp_distinct_iff)
  have need: "\<forall>r \<in> set roles3. \<forall>gi<g. need_at tbl r gi = of_i (tg r gi)"
    using s3 s2 by (auto simp: need_at_def tbl_def map_of_keyed)
  have tot: "total_of counts r = int (length (pool_of byRole r))" if "r \<in> set roles" for r
    using that by (simp add: total_of_def counts_def map_of_keyed)
  have tgn: "0 \<le> tg r j" if "r \<in> set roles" "j < g" for r j
    using lo that s2 by simp
  have colsum: "(\<Sum>j<g. nat (tg r j)) = length (pool_of byRole r)" if "r \<in> set roles3" for r
  proof -
    have r: "r \<in> set roles" using that s3 by simp
    have "int (\<Sum>j<g. nat (tg r j)) = (\<Sum>j<g. int (nat (tg r j)))"
      by simp
    also have "\<dots> = (\<Sum>j<g. tg r j)"
      by (rule sum.cong) (simp_all add: tgn r)
    also have "\<dots> = int (length (pool_of byRole r))"
      using cols r s2 tot by simp
    finally show ?thesis by (simp only: of_nat_eq_iff)
  qed
  from assign_roles_ok [OF need d3, of "replicate g []" byRole] colsum
  obtain byRole' groups where
    ar: "assign_roles tbl g roles3 (byRole, replicate g []) = Inr (byRole', groups)"
    and len: "length groups = g"
    and lens: "\<forall>j<g. length (groups ! j)
                 = length (replicate g ([] :: person list) ! j) + (\<Sum>r\<leftarrow>roles3. nat (tg r j))"
    and ms: "mset (concat groups)
               = mset (concat (replicate g ([] :: person list)))
                 + (\<Sum>r\<leftarrow>roles3. mset (pool_of byRole r))"
    and pools: "\<forall>k. pool_of byRole' k = (if k \<in> set roles3 then [] else pool_of byRole k)"
    and keys': "fst ` set byRole' = fst ` set byRole \<union> set roles3"
    by auto
  have glen: "int (length (groups ! j)) = sizes ! j" if "j < g" for j
  proof -
    have "int (length (groups ! j)) = (\<Sum>r\<leftarrow>roles3. int (nat (tg r j)))"
      using lens that by (simp add: int_sum_list)
    also have "\<dots> = (\<Sum>r \<in> set roles3. int (nat (tg r j)))"
      using d3 by (rule sum_list_distinct_conv_sum_set)
    also have "\<dots> = (\<Sum>r \<in> set roles2. tg r j)"
      unfolding s3 s2 by (rule sum.cong) (simp_all add: tgn that)
    finally show ?thesis using rows that by simp
  qed
  have gms: "mset (concat groups) = mset people"
    using ms pools_by_keys [OF db m3] pmb by simp
  have "set (object_keys byRole') = set roles3"
    using keys' keysb s3 sroles by simp
  then have left: "concat (map (pool_of byRole') (object_keys byRole')) = []"
    using pools by simp
  have dist: "distribute sizes g 0 (groups, []) = (groups, [])"
    by (subst distribute.simps) simp
  have chk1: "\<not> list_ex (\<lambda>gi. int (length (groups ! gi)) \<noteq> sizes ! gi) [0..<g]"
    using glen by (simp add: list_ex_iff)
  have "sum_list (map length groups) = length (concat groups)"
    by (simp add: length_concat)
  also have "\<dots> = length people"
    using gms by (metis size_mset)
  finally have chk2: "int (sum_list (map length groups)) = n"
    by (simp add: n_def)
  have res: "allocateGroups rnd people (Fin d) =
               Some (Inr (groups,
                          concat (map (\<lambda>gi. map (\<lambda>p. (name p, role p, gi + 1)) (groups ! gi))
                                    [0..<g])))"
    using chk1 chk2
    by (simp add: allocateGroups_def Let_def cgs [unfolded n_def] gbr sh
        crt [unfolded counts_def roles_def] ar [unfolded roles3_def tbl_def]
        left shuffleInPlace_def dist n_def
        flip: g_def)
  have "map (\<lambda>gr. int (length gr)) groups = sizes"
    using glen len by (intro nth_equalityI) (simp_all add: g_def)
  then show ?thesis
    using cgs res gms unfolding n_def g_def by blast
qed

lemma allocateGroups_inherited:
  assumes "2 \<le> d" and "\<exists>p \<in> set people. role p \<in> set object_prototype_keys"
  shows "allocateGroups rnd people (Fin d) = Some (Inl TypeError)"
proof -
  have "\<exists>sizes. computeGroupSizes (int (length people)) (Fin d) = Inr sizes"
    using computeGroupSizes_finite [OF assms(1)] by (simp add: Let_def)
  moreover have "group_by_role people [] = Inl TypeError"
    using assms(2) by (intro group_by_role_inherited) simp_all
  ultimately show ?thesis
    by (auto simp: allocateGroups_def Let_def)
qed

lemma allocateGroups_invalid:
  "\<not> (\<exists>d. groupSize = Fin d \<and> 2 \<le> d) \<Longrightarrow>
   allocateGroups rnd people groupSize = Some (Inl InvalidConfiguration)"
  by (cases groupSize) (auto simp: allocateGroups_def computeGroupSizes_def Let_def)

lemma allocateGroups_result:
  assumes "2 \<le> length people" and "\<forall>p \<in> set people. role p \<noteq> []"
    and "allocateGroups rnd people groupSize = Some (Inr (groups, annotated))"
  shows "\<exists>d sizes. groupSize = Fin d \<and> 2 \<le> d \<and>
           computeGroupSizes (int (length people)) groupSize = Inr sizes \<and>
           annotated = concat (map (\<lambda>gi. map (\<lambda>p. (name p, role p, gi + 1)) (groups ! gi))
                                 [0..<length sizes]) \<and>
           map (\<lambda>gr. int (length gr)) groups = sizes \<and>
           mset (concat groups) = mset people"
proof -
  obtain d where d: "groupSize = Fin d" "2 \<le> d"
    using allocateGroups_invalid [of groupSize rnd people] assms(3) by auto
  have "\<forall>p \<in> set people. role p \<notin> set object_prototype_keys"
    using allocateGroups_inherited [OF d(2), of people rnd] assms(3) d(1) by auto
  from allocateGroups_ok [OF assms(1) d(2) assms(2) this, of rnd]
  show ?thesis
    using assms(3) d by auto
qed

text \<open>
  C2: for a roster of at least two people with non-empty names and roles, whenever
  \<open>allocateGroups\<close> returns, the groups taken together are the roster as a multiset:
  nobody is duplicated or dropped, the group lengths sum to the number of people, and
  the \<open>(name, role)\<close> pairs of the groups, and of the annotated rows, are those of the
  roster.
\<close>

theorem allocateGroups_partition:
  assumes "2 \<le> length people" and "\<forall>p \<in> set people. name p \<noteq> [] \<and> role p \<noteq> []"
    and "allocateGroups rnd people groupSize = Some (Inr (groups, annotated))"
  shows "mset (concat groups) = mset people \<and>
         sum_list (map length groups) = length people \<and>
         mset (map (\<lambda>p. (name p, role p)) (concat groups))
           = mset (map (\<lambda>p. (name p, role p)) people) \<and>
         mset (map (\<lambda>(nm, rl, gi). (nm, rl)) annotated)
           = mset (map (\<lambda>p. (name p, role p)) people)"
proof -
  have r: "\<forall>p \<in> set people. role p \<noteq> []"
    using assms(2) by simp
  from allocateGroups_result [OF assms(1) r assms(3)]
  obtain sizes where
    ann: "annotated = concat (map (\<lambda>gi. map (\<lambda>p. (name p, role p, gi + 1)) (groups ! gi))
                               [0..<length sizes])"
    and len: "map (\<lambda>gr. int (length gr)) groups = sizes"
    and ms: "mset (concat groups) = mset people"
    by blast
  have 1: "sum_list (map length groups) = length people"
    using ms by (metis length_concat size_mset)
  have 2: "mset (map (\<lambda>p. (name p, role p)) (concat groups))
             = mset (map (\<lambda>p. (name p, role p)) people)"
    using ms by (metis mset_map)
  have lg: "length groups = length sizes"
    using len by (metis length_map)
  have "map (\<lambda>(nm, rl, gi). (nm, rl)) annotated
          = concat (map (\<lambda>gi. map (\<lambda>p. (name p, role p)) (groups ! gi)) [0..<length groups])"
    by (simp add: ann lg map_concat comp_def)
  also have "\<dots> = concat (map (map (\<lambda>p. (name p, role p))) groups)"
    by (rule arg_cong [where f = concat]) (rule nth_equalityI, simp_all)
  also have "\<dots> = map (\<lambda>p. (name p, role p)) (concat groups)"
    by (simp add: map_concat)
  finally have 3: "mset (map (\<lambda>(nm, rl, gi). (nm, rl)) annotated)
                     = mset (map (\<lambda>p. (name p, role p)) people)"
    using 2 by simp
  show ?thesis
    using ms 1 2 3 by simp
qed

lemma sample_roster_facts:
  "2 \<le> length sample_roster"
  "\<forall>p \<in> set sample_roster. name p \<noteq> [] \<and> role p \<noteq> []"
  "\<forall>p \<in> set sample_roster. role p \<noteq> []"
  "\<forall>p \<in> set sample_roster. role p \<notin> set object_prototype_keys"
  by (simp_all add: sample_roster_def object_prototype_keys_def)

theorem allocateGroups_partition_witness:
  "2 \<le> length sample_roster \<and>
   (\<exists>groups annotated.
      allocateGroups zero_rng sample_roster (Fin 2) = Some (Inr (groups, annotated)) \<and>
      mset (concat groups) = mset sample_roster \<and>
      sum_list (map length groups) = length sample_roster \<and>
      mset (map (\<lambda>p. (name p, role p)) (concat groups))
        = mset (map (\<lambda>p. (name p, role p)) sample_roster) \<and>
      mset (map (\<lambda>(nm, rl, gi). (nm, rl)) annotated)
        = mset (map (\<lambda>p. (name p, role p)) sample_roster))"
proof -
  have d: "(2 :: rat) \<le> 2" by simp
  from allocateGroups_ok [OF sample_roster_facts(1) d sample_roster_facts(3,4), of zero_rng]
  obtain groups annotated where
    res: "allocateGroups zero_rng sample_roster (Fin 2) = Some (Inr (groups, annotated))"
    by blast
  from allocateGroups_partition [OF sample_roster_facts(1,2) res] res sample_roster_facts(1)
  show ?thesis by blast
qed

text \<open>
  C5: for a roster of at least two people with non-empty roles and a finite desired
  size of at least \<open>2\<close>, neither sanity check of \<open>allocateGroups\<close> throws: the call
  returns, unless a role names a property inherited from \<open>Object.prototype\<close>, when it
  throws the engine's \<open>TypeError\<close>. On return every group has the length
  \<open>computeGroupSizes\<close> gave it and the lengths sum to the number of people.
\<close>

theorem allocateGroups_checks_pass:
  assumes "2 \<le> length people" and "2 \<le> d" and "\<forall>p \<in> set people. role p \<noteq> []"
  shows "allocateGroups rnd people (Fin d) \<noteq> Some (Inl GroupSizeMismatch) \<and>
         allocateGroups rnd people (Fin d) \<noteq> Some (Inl AssignedCountMismatch) \<and>
         (allocateGroups rnd people (Fin d) = Some (Inl TypeError) \<or>
          (\<exists>groups annotated sizes.
             allocateGroups rnd people (Fin d) = Some (Inr (groups, annotated)) \<and>
             computeGroupSizes (int (length people)) (Fin d) = Inr sizes \<and>
             map (\<lambda>gr. int (length gr)) groups = sizes \<and>
             sum_list (map length groups) = length people))"
proof (cases "\<exists>p \<in> set people. role p \<in> set object_prototype_keys")
  case True
  from allocateGroups_inherited [OF assms(2) True, of rnd] show ?thesis by simp
next
  case False
  then have "\<forall>p \<in> set people. role p \<notin> set object_prototype_keys" by simp
  from allocateGroups_ok [OF assms(1,2,3) this, of rnd]
  obtain sizes groups annotated where
    res: "allocateGroups rnd people (Fin d) = Some (Inr (groups, annotated))"
    and cgs: "computeGroupSizes (int (length people)) (Fin d) = Inr sizes"
    and len: "map (\<lambda>gr. int (length gr)) groups = sizes"
    and ms: "mset (concat groups) = mset people"
    by blast
  have "sum_list (map length groups) = length people"
    using ms by (metis length_concat size_mset)
  then show ?thesis
    using res cgs len by simp
qed

theorem allocateGroups_checks_pass_witness:
  "2 \<le> length sample_roster \<and> (2 :: rat) \<le> 2 \<and>
   allocateGroups zero_rng sample_roster (Fin 2) \<noteq> Some (Inl GroupSizeMismatch) \<and>
   allocateGroups zero_rng sample_roster (Fin 2) \<noteq> Some (Inl AssignedCountMismatch) \<and>
   (\<exists>groups annotated.
      allocateGroups zero_rng sample_roster (Fin 2) = Some (Inr (groups, annotated)) \<and>
      map (\<lambda>gr. int (length gr)) groups = [2, 1] \<and>
      sum_list (map length groups) = length sample_roster)"
proof -
  have d: "(2 :: rat) \<le> 2" by simp
  have te: "allocateGroups zero_rng sample_roster (Fin 2) \<noteq> Some (Inl TypeError)"
    using allocateGroups_ok [OF sample_roster_facts(1) d sample_roster_facts(3,4), of zero_rng]
    by auto
  have "length sample_roster = 3"
    by (simp add: sample_roster_def)
  then have cgs: "computeGroupSizes (int (length sample_roster)) (Fin 2) = Inr [2, 1]"
    by (simp only:) code_simp
  from allocateGroups_checks_pass [OF sample_roster_facts(1) d sample_roster_facts(3), of zero_rng]
    te cgs sample_roster_facts(1) d
  show ?thesis by auto
qed





end
